theory Spec2Isabelle
  imports Complex_Main "HOL-Library.Word"
begin

unbundle bit_operations_syntax

section \<open>pmempool output.c: data model\<close>

text \<open>
  Bytes of the dumped buffer are \<open>uint8_t\<close>, offsets and sizes are \<open>size_t\<close> and
  \<open>uint64_t\<close> (64 bits, the LP64 model that the \<open>%lx\<close>, \<open>%ld\<close> and \<open>%lu\<close>
  conversions of the source assume), printed checksums are \<open>uint32_t\<close>.
  A C \<open>int\<close> that is only compared or counts characters is an \<open>int\<close>.
\<close>

type_synonym u8 = "8 word"

type_synonym u32 = "32 word"

type_synonym u64 = "64 word"

definition HEXDUMP_ROW_WIDTH :: nat where
  "HEXDUMP_ROW_WIDTH = 16"

definition HEXDUMP_ROW_HEX_LEN :: nat where
  "HEXDUMP_ROW_HEX_LEN = HEXDUMP_ROW_WIDTH * 3 + 1 + 1"

definition HEXDUMP_ROW_ASCII_LEN :: nat where
  "HEXDUMP_ROW_ASCII_LEN = HEXDUMP_ROW_WIDTH + 1"

definition SEPARATOR_CHAR :: char where
  "SEPARATOR_CHAR = CHR ''-''"

definition STR_MAX :: nat where
  "STR_MAX = 256"

subsection \<open>The formatted-output primitives of the host library\<close>

text \<open>
  A character buffer is the list of its cells; the C string it holds is the
  cells before the first NUL.
\<close>

definition NUL :: char where
  "NUL = CHR 0x00"

definition c_str :: "char list \<Rightarrow> string" where
  "c_str buf = takeWhile (\<lambda>c. c \<noteq> NUL) buf"

definition hex_digit :: "nat \<Rightarrow> char" where
  "hex_digit d = ''0123456789abcdef'' ! d"

definition dec_digit :: "nat \<Rightarrow> char" where
  "dec_digit d = ''0123456789'' ! d"

function hex_digits :: "nat \<Rightarrow> string" where
  "hex_digits n = (if n < 16 then [hex_digit n] else hex_digits (n div 16) @ [hex_digit (n mod 16)])"
  by pat_completeness auto
termination
  by (relation "measure (\<lambda>n. n)") auto

declare hex_digits.simps [simp del]

function dec_digits :: "nat \<Rightarrow> string" where
  "dec_digits n = (if n < 10 then [dec_digit n] else dec_digits (n div 10) @ [dec_digit (n mod 10)])"
  by pat_completeness auto
termination
  by (relation "measure (\<lambda>n. n)") auto

declare dec_digits.simps [simp del]

text \<open>Right-justified in a field of width \<open>w\<close> (\<open>%0wx\<close>), and left-justified (\<open>%-*s\<close>).
  Neither truncates a text longer than the field.\<close>

definition pad_left :: "char \<Rightarrow> nat \<Rightarrow> string \<Rightarrow> string" where
  "pad_left c w s = replicate (w - length s) c @ s"

definition pad_right :: "nat \<Rightarrow> string \<Rightarrow> string" where
  "pad_right w s = s @ replicate (w - length s) CHR '' ''"

definition fmt_02x :: "u8 \<Rightarrow> string" where
  "fmt_02x b = pad_left CHR ''0'' 2 (hex_digits (unat b))"

definition fmt_08x :: "u32 \<Rightarrow> string" where
  "fmt_08x w = pad_left CHR ''0'' 8 (hex_digits (unat w))"

definition fmt_08lx :: "u64 \<Rightarrow> string" where
  "fmt_08lx w = pad_left CHR ''0'' 8 (hex_digits (unat w))"

definition fmt_lu :: "u64 \<Rightarrow> string" where
  "fmt_lu w = dec_digits (unat w)"

text \<open>\<open>%ld\<close> reads the 64 bits it is given as a signed long.\<close>

definition fmt_ld :: "u64 \<Rightarrow> string" where
  "fmt_ld w = (if sint w < 0 then ''-'' @ dec_digits (nat (- sint w)) else dec_digits (nat (sint w)))"

text \<open>
  \<open>snprintf(buf + pos, sz, ...)\<close> for the formatted text \<open>text\<close>: at most
  \<open>sz - 1\<close> characters and a NUL are stored, nothing when \<open>sz\<close> is 0; the
  value returned is the length of the whole text.
\<close>

definition poke :: "char list \<Rightarrow> nat \<Rightarrow> char list \<Rightarrow> char list" where
  "poke buf pos xs = take pos buf @ xs @ drop (pos + length xs) buf"

definition snprintf :: "char list \<Rightarrow> nat \<Rightarrow> nat \<Rightarrow> string \<Rightarrow> char list \<times> int" where
  "snprintf buf pos sz text =
     (if sz = 0 then buf else poke buf pos (take (sz - 1) text @ [NUL]), int (length text))"

text \<open>\<open>isprint\<close> in the C locale.\<close>

definition isprint :: "char \<Rightarrow> bool" where
  "isprint c = (32 \<le> (of_char c :: nat) \<and> (of_char c :: nat) \<le> 126)"

section \<open>The hex dump\<close>

definition out_get_printable_ascii :: "char \<Rightarrow> char" where
  "out_get_printable_ascii c = (if isprint c then c else CHR ''.'')"

text \<open>
  The two row assemblers return the character count and the buffer they wrote to.
  \<open>c\<close> is the C \<open>int\<close> counter and \<open>str_len - c\<close> the room left, a \<open>size_t\<close>.
  For the rows of at most 16 bytes that the dump asks for, \<open>c\<close> stays below
  \<open>str_len\<close>. Where \<open>c\<close> would pass \<open>str_len\<close> (a hex row of 17 bytes or more in
  a buffer that just passes the check) the C expression wraps around and
  \<open>snprintf\<close> writes outside the buffer; the model writes nothing there.
\<close>

function ascii_loop :: "char list \<Rightarrow> nat \<Rightarrow> u8 list \<Rightarrow> nat \<Rightarrow> nat \<Rightarrow> int \<Rightarrow> int \<times> char list" where
  "ascii_loop str str_len datap len i c =
     (if i < len then
        let pch = out_get_printable_ascii (char_of (unat (datap ! i)));
            (str', r) = snprintf str (nat c) (str_len - nat c) [pch]
        in ascii_loop str' str_len datap len (i + 1) (c + r)
      else (c, str))"
  by pat_completeness auto
termination
  by (relation "measure (\<lambda>(str, str_len, datap, len, i, c). len - i)") auto

declare ascii_loop.simps [simp del]

definition out_get_ascii_str :: "char list \<Rightarrow> nat \<Rightarrow> u8 list \<Rightarrow> nat \<Rightarrow> int \<times> char list" where
  "out_get_ascii_str str str_len datap len =
     (if str_len < len then (- 1, str) else ascii_loop str str_len datap len 0 0)"

function hex_loop :: "char list \<Rightarrow> nat \<Rightarrow> u8 list \<Rightarrow> nat \<Rightarrow> nat \<Rightarrow> int \<Rightarrow> int \<times> char list" where
  "hex_loop str str_len datap len i c =
     (if i < len then
        let (str1, c1) =
              (if i \<noteq> 0 \<and> i mod 8 = 0 then
                 let (s, r) = snprintf str (nat c) (str_len - nat c) '' '' in (s, c + r)
               else (str, c));
            (str2, r2) = snprintf str1 (nat c1) (str_len - nat c1) (fmt_02x (datap ! i) @ '' '')
        in hex_loop str2 str_len datap len (i + 1) (c1 + r2)
      else (c, str))"
  by pat_completeness auto
termination
  by (relation "measure (\<lambda>(str, str_len, datap, len, i, c). len - i)") auto

declare hex_loop.simps [simp del]

definition out_get_hex_str :: "char list \<Rightarrow> nat \<Rightarrow> u8 list \<Rightarrow> nat \<Rightarrow> int \<times> char list" where
  "out_get_hex_str str str_len datap len =
     (if str_len < 3 * len + 1 then (- 1, str) else hex_loop str str_len datap len 0 0)"

text \<open>
  \<open>memcmp\<close> over the first \<open>n\<close> bytes: 0 when they agree, else the difference
  of the first two bytes that differ. The dump only tests the result against 0.
\<close>

fun memcmp :: "u8 list \<Rightarrow> u8 list \<Rightarrow> nat \<Rightarrow> int" where
  "memcmp (x # xs) (y # ys) (Suc n) = (if x = y then memcmp xs ys n else int (unat x) - int (unat y))"
| "memcmp xs ys n = 0"

text \<open>
  The \<open>fprintf\<close> of one row, \<open>"%08lx  %-*s|%-*s|\n"\<close>, from the two row buffers.
\<close>

definition hexdump_row :: "u64 \<Rightarrow> char list \<Rightarrow> char list \<Rightarrow> string" where
  "hexdump_row x row_hex_str row_ascii_str =
     fmt_08lx x @ ''  '' @ pad_right HEXDUMP_ROW_HEX_LEN (c_str row_hex_str) @ ''|'' @
     pad_right HEXDUMP_ROW_WIDTH (c_str row_ascii_str) @ ''|'' @ [CHR 0x0A]"

definition star_line :: string where
  "star_line = ''*'' @ [CHR 0x0A]"

text \<open>
  One \<open>fprintf\<close> to \<open>out_fh\<close>. It returns the number of bytes written, or a
  negative value when the write fails (\<open>-1\<close> in glibc), and a failed write adds
  nothing to the stream. Whether a write fails is decided outside the program:
  \<open>fails\<close> tells it from what the call has written so far and the text to write.
  \<open>out\<close> collects what the call has written, one entry for each \<open>fprintf\<close> that
  succeeded.
\<close>

type_synonym write_fails = "string list \<Rightarrow> string \<Rightarrow> bool"

definition fprintf_out :: "write_fails \<Rightarrow> string list \<Rightarrow> string \<Rightarrow> int \<times> string list" where
  "fprintf_out fails out text =
     (if fails out text then (- 1, out) else (int (length text), out @ [text]))"

text \<open>The stream on which no write fails.\<close>

definition writes_succeed :: write_fails where
  "writes_succeed out text = False"

text \<open>
  Lines 378 to 382: the row is written when both counts are non-zero, and \<open>n\<close>
  becomes what \<open>fprintf\<close> returns.
\<close>

definition hexdump_print ::
  "write_fails \<Rightarrow> int \<Rightarrow> int \<Rightarrow> u64 \<Rightarrow> char list \<Rightarrow> char list \<Rightarrow> int \<Rightarrow> string list
     \<Rightarrow> int \<times> string list" where
  "hexdump_print fails rh ra x row_hex_str row_ascii_str n out =
     (if ra \<noteq> 0 \<and> rh \<noteq> 0 then fprintf_out fails out (hexdump_row x row_hex_str row_ascii_str)
      else (n, out))"

text \<open>The \<open>while (len)\<close> loop of \<open>outv_hexdump\<close>, lines 354 to 388 (\<open>cur\<close> is the
  source's \<open>curr\<close>).\<close>

function hexdump_loop ::
  "write_fails \<Rightarrow> u8 list \<Rightarrow> u64 \<Rightarrow> nat \<Rightarrow> nat \<Rightarrow> nat \<Rightarrow> int \<Rightarrow> int \<Rightarrow> char list \<Rightarrow> char list
     \<Rightarrow> string list \<Rightarrow> string list \<times> int" where
  "hexdump_loop fails datap offset len cur prev repeated n row_hex_str row_ascii_str out =
     (if len \<noteq> 0 then
        let curr_len = min len HEXDUMP_ROW_WIDTH in
        if len \<noteq> curr_len \<and> cur \<noteq> 0 \<and> memcmp (drop prev datap) (drop cur datap) curr_len = 0 then
          if repeated = 0 then
            hexdump_loop fails datap offset (len - curr_len) (cur + curr_len) prev 1 n
              row_hex_str row_ascii_str (snd (fprintf_out fails out star_line))
          else
            hexdump_loop fails datap offset (len - curr_len) (cur + curr_len) prev repeated n
              row_hex_str row_ascii_str out
        else
          let (rh, hex') = out_get_hex_str row_hex_str HEXDUMP_ROW_HEX_LEN (drop cur datap) curr_len;
              (ra, ascii') = out_get_ascii_str row_ascii_str HEXDUMP_ROW_ASCII_LEN (drop cur datap) curr_len;
              (n', out') = hexdump_print fails rh ra (of_nat cur + offset) hex' ascii' n out
          in hexdump_loop fails datap offset (len - curr_len) (cur + curr_len) cur 0 n' hex' ascii' out'
      else (out, n))"
  by pat_completeness auto
termination
  by (relation "measure (\<lambda>(fails, datap, offset, len, rest). len)")
     (auto simp: HEXDUMP_ROW_WIDTH_def)

declare hexdump_loop.simps [simp del]

text \<open>
  The separator, lines 391 to 393: \<open>while (--n) fprintf(out_fh, "%c", '-')\<close> and
  the newline. With \<open>n\<close> below 1, as after a failed write of the last row, the
  count-down moves away from 0 (C leaves the decrement of the least \<open>int\<close>
  undefined), and the result is \<open>None\<close>.
\<close>

partial_function (option) sep_loop :: "write_fails \<Rightarrow> int \<Rightarrow> string list \<Rightarrow> string list option" where
  "sep_loop fails n out =
     (if n - 1 \<noteq> 0 then sep_loop fails (n - 1) (snd (fprintf_out fails out [SEPARATOR_CHAR]))
      else Some out)"

declare sep_loop.simps [code]

subsection \<open>Module state and the gated printers\<close>

datatype FILE = Stdout | Stderr | Stream nat

datatype error = NullStream | NoReturn

text \<open>
  The four static variables, and what has been written to each stream, one entry
  for each call that writes. \<open>out_fh\<close> and \<open>out_prefix\<close> start as null pointers.
\<close>

record out_state =
  out_vlevel :: int
  out_column_width :: nat
  out_fh :: "FILE option"
  out_prefix :: "string option"
  written :: "FILE \<Rightarrow> string list"

definition outv_check :: "out_state \<Rightarrow> int \<Rightarrow> int" where
  "outv_check st vlevel = (if out_vlevel st \<ge> vlevel then 1 else 0)"

definition out_set_col_width :: "nat \<Rightarrow> out_state \<Rightarrow> out_state" where
  "out_set_col_width col_width st = st\<lparr>out_column_width := col_width\<rparr>"

definition out_set_vlevel :: "int \<Rightarrow> out_state \<Rightarrow> out_state" where
  "out_set_vlevel vlevel st =
     (let st' = st\<lparr>out_vlevel := vlevel\<rparr>
      in if out_fh st' = None then st'\<lparr>out_fh := Some Stdout\<rparr> else st')"

definition out_set_prefix :: "string option \<Rightarrow> out_state \<Rightarrow> out_state" where
  "out_set_prefix prefix st = st\<lparr>out_prefix := prefix\<rparr>"

definition out_set_stream :: "FILE option \<Rightarrow> out_state \<Rightarrow> out_state" where
  "out_set_stream stream st = st\<lparr>out_fh := stream\<rparr>"

text \<open>Writing through a null \<open>FILE *\<close> does not return.\<close>

definition fprintf :: "FILE option \<Rightarrow> string \<Rightarrow> out_state \<Rightarrow> error + out_state" where
  "fprintf fh text st =
     (case fh of
        None \<Rightarrow> Inl NullStream
      | Some f \<Rightarrow> Inr (st\<lparr>written := (written st)(f := written st f @ [text])\<rparr>))"

fun fprintf_all :: "FILE option \<Rightarrow> string list \<Rightarrow> out_state \<Rightarrow> error + out_state" where
  "fprintf_all fh [] st = Inr st"
| "fprintf_all fh (l # ls) st =
     (case fprintf fh l st of Inl e \<Rightarrow> Inl e | Inr st' \<Rightarrow> fprintf_all fh ls st')"

definition out_prefix_print :: "out_state \<Rightarrow> error + out_state" where
  "out_prefix_print st =
     (case out_prefix st of
        None \<Rightarrow> Inr st
      | Some p \<Rightarrow> fprintf (out_fh st) (p @ '': '') st)"

text \<open>\<open>msg\<close> is the text that \<open>vfprintf\<close> makes of the format and its arguments.\<close>

definition outv :: "out_state \<Rightarrow> int \<Rightarrow> string \<Rightarrow> error + out_state" where
  "outv st vlevel msg =
     (if outv_check st vlevel \<noteq> 0 then
        case out_prefix_print st of
          Inl e \<Rightarrow> Inl e
        | Inr st' \<Rightarrow> fprintf (out_fh st') msg st'
      else Inr st)"

text \<open>
  \<open>outv_hexdump\<close>, lines 340 to 395: the gate, the loop over the rows and the
  separator, on a stream whose writes behave as \<open>fails\<close> tells. The row buffers
  start zeroed. The first pass of the loop writes a row, so a null \<open>out_fh\<close> is
  met there; the writes all go to \<open>out_fh\<close>, which nothing changes in between.
\<close>

definition outv_hexdump_io ::
  "write_fails \<Rightarrow> out_state \<Rightarrow> int \<Rightarrow> u8 list \<Rightarrow> nat \<Rightarrow> u64 \<Rightarrow> int \<Rightarrow> error + out_state" where
  "outv_hexdump_io fails st vlevel addr len offset sep =
     (if outv_check st vlevel = 0 \<or> len \<le> 0 then Inr st
      else if out_fh st = None then Inl NullStream
      else
        let (out, n) = hexdump_loop fails addr offset len 0 0 0 0
                         (replicate HEXDUMP_ROW_HEX_LEN NUL) (replicate HEXDUMP_ROW_ASCII_LEN NUL) []
        in case (if sep \<noteq> 0 \<and> n \<noteq> 0
                 then map_option (\<lambda>ls. snd (fprintf_out fails ls [CHR 0x0A])) (sep_loop fails n out)
                 else Some out) of
             None \<Rightarrow> Inl NoReturn
           | Some ls \<Rightarrow> fprintf_all (out_fh st) ls st)"

text \<open>The call of \<open>outv_hexdump\<close> on a stream where every write succeeds.\<close>

definition outv_hexdump :: "out_state \<Rightarrow> int \<Rightarrow> u8 list \<Rightarrow> nat \<Rightarrow> u64 \<Rightarrow> int \<Rightarrow> error + out_state" where
  "outv_hexdump st vlevel addr len offset sep =
     outv_hexdump_io writes_succeed st vlevel addr len offset sep"

subsection \<open>The size and checksum formatters\<close>

text \<open>
  What a caller reads from a static \<open>str_buff[STR_MAX]\<close> after
  \<open>snprintf(str_buff, STR_MAX, ...)\<close>: the buffer is written from its start, so
  what it held before does not show.
\<close>

definition snprintf_buff :: "string \<Rightarrow> string" where
  "snprintf_buff text = c_str (fst (snprintf (replicate STR_MAX NUL) 0 STR_MAX text))"

text \<open>
  The doubles of \<open>out_get_size_str\<close> are never negative: a double is a mantissa
  \<open>m\<close> and a binary exponent \<open>e\<close>, with value \<open>m / 2^e\<close>. The conversion of a
  \<open>uint64_t\<close> rounds to 53 significant bits, ties to even; dividing by 1024 is
  exact; \<open>%.1f\<close> rounds the exact value to tenths, ties to even.
\<close>

type_synonym double = "nat \<times> nat"

function nbits :: "nat \<Rightarrow> nat" where
  "nbits n = (if n = 0 then 0 else Suc (nbits (n div 2)))"
  by pat_completeness auto
termination
  by (relation "measure (\<lambda>n. n)") auto

declare nbits.simps [simp del]

definition round_half_even :: "nat \<Rightarrow> nat \<Rightarrow> nat" where
  "round_half_even a b =
     (let q = a div b; r = a mod b
      in if 2 * r < b then q else if b < 2 * r then q + 1 else if even q then q else q + 1)"

definition double_of_u64 :: "u64 \<Rightarrow> double" where
  "double_of_u64 w =
     (let n = unat w
      in if n < 2 ^ 53 then (n, 0)
         else let e = nbits n - 53 in (round_half_even n (2 ^ e) * 2 ^ e, 0))"

definition double_div_1024 :: "double \<Rightarrow> double" where
  "double_div_1024 d = (fst d, snd d + 10)"

definition double_ge_1024 :: "double \<Rightarrow> bool" where
  "double_ge_1024 d = (1024 * 2 ^ snd d \<le> fst d)"

definition fmt_1f :: "double \<Rightarrow> string" where
  "fmt_1f d =
     (let t = round_half_even (10 * fst d) (2 ^ snd d)
      in dec_digits (t div 10) @ ''.'' @ [dec_digit (t mod 10)])"

text \<open>
  \<open>out_get_size_str\<close> (\<open>sz\<close> is the source's \<open>size\<close>). The table of units ends
  with a NUL, and \<open>nunits\<close> counts it.
\<close>

definition units :: "char list" where
  "units = [CHR ''K'', CHR ''M'', CHR ''G'', CHR ''T'', NUL]"

definition nunits :: int where
  "nunits = int (length units)"

function size_loop :: "double \<Rightarrow> double \<Rightarrow> int \<Rightarrow> double \<times> int" where
  "size_loop csize dsize i =
     (if double_ge_1024 csize \<and> i < nunits
      then size_loop (double_div_1024 csize) (double_div_1024 dsize) (i + 1)
      else (dsize, i))"
  by pat_completeness auto
termination
  by (relation "measure (\<lambda>(csize, dsize, i). nat (nunits - i))") auto

declare size_loop.simps [simp del]

definition out_get_size_str :: "u64 \<Rightarrow> int \<Rightarrow> string" where
  "out_get_size_str sz human =
     (if human = 0 then snprintf_buff (fmt_ld sz)
      else
        let (dsize, i) = size_loop (double_of_u64 sz) (double_of_u64 sz) (- 1)
        in if 0 \<le> i \<and> i < nunits then
             if human = 1 then snprintf_buff (fmt_1f dsize @ [units ! nat i])
             else snprintf_buff (fmt_1f dsize @ [units ! nat i] @ '' ['' @ fmt_lu sz @ '']'')
           else snprintf_buff (fmt_ld sz))"

text \<open>
  Memory is an array of bytes; a \<open>uint64_t\<close> is read and written at an address
  as eight bytes, the lowest first. The checksum field that \<open>csump\<close> points to may
  lie inside the buffer at \<open>addr\<close>.
\<close>

type_synonym heap = "nat \<Rightarrow> u8"

definition load64 :: "heap \<Rightarrow> nat \<Rightarrow> u64" where
  "load64 h p =
     ucast (h p) OR push_bit 8 (ucast (h (p + 1))) OR push_bit 16 (ucast (h (p + 2))) OR
     push_bit 24 (ucast (h (p + 3))) OR push_bit 32 (ucast (h (p + 4))) OR
     push_bit 40 (ucast (h (p + 5))) OR push_bit 48 (ucast (h (p + 6))) OR
     push_bit 56 (ucast (h (p + 7)))"

definition store64 :: "heap \<Rightarrow> nat \<Rightarrow> u64 \<Rightarrow> heap" where
  "store64 h p v = (\<lambda>a. if p \<le> a \<and> a < p + 8 then ucast (drop_bit (8 * (a - p)) v) else h a)"

text \<open>
  \<open>util_validate_checksum\<close> is not part of this file: it is a parameter, any
  function from the memory, \<open>addr\<close>, \<open>len\<close> and \<open>csump\<close> to its verdict and the
  memory it leaves.
\<close>

definition out_get_checksum ::
  "(heap \<Rightarrow> nat \<Rightarrow> nat \<Rightarrow> nat \<Rightarrow> int \<times> heap) \<Rightarrow> heap \<Rightarrow> nat \<Rightarrow> nat \<Rightarrow> nat \<Rightarrow> string \<times> heap" where
  "out_get_checksum util_validate_checksum h addr len csump =
     (let csum = load64 h csump;
          (valid, h') = util_validate_checksum h addr len csump;
          str_buff =
            (if valid \<noteq> 0 then
               snprintf_buff (''0x'' @ fmt_08x (ucast csum) @ '' [OK]'')
             else
               snprintf_buff (''0x'' @ fmt_08x (ucast csum) @ '' [wrong! should be: 0x'' @
                              fmt_08x (ucast (load64 h' csump)) @ '']''))
      in (str_buff, store64 h' csump csum))"

section \<open>Definitions for the statements\<close>

subsection \<open>What a row and a dump look like\<close>

text \<open>
  The text that the assemblers leave in the row buffers for a row of at most 16
  bytes, the line that \<open>fprintf\<close> then writes for it, the line of the row that
  starts at byte \<open>c\<close> of a dump of \<open>len\<close> bytes, the lines of the whole loop, and
  the separator after a last line of \<open>n\<close> bytes. The lemmas below show that the
  code produces exactly these.
\<close>

definition hex_tokens :: "u8 list \<Rightarrow> string" where
  "hex_tokens row = concat (map (\<lambda>b. fmt_02x b @ '' '') row)"

definition hex_text :: "u8 list \<Rightarrow> string" where
  "hex_text row = hex_tokens (take 8 row) @ (if length row > 8 then '' '' @ hex_tokens (drop 8 row) else [])"

definition ascii_text :: "u8 list \<Rightarrow> string" where
  "ascii_text row = map (\<lambda>b. out_get_printable_ascii (char_of (unat b))) row"

definition row_line :: "u64 \<Rightarrow> u8 list \<Rightarrow> string" where
  "row_line x row =
     fmt_08lx x @ ''  '' @ pad_right HEXDUMP_ROW_HEX_LEN (hex_text row) @ ''|'' @
     pad_right HEXDUMP_ROW_WIDTH (ascii_text row) @ ''|'' @ [CHR 0x0A]"

definition row_at :: "u8 list \<Rightarrow> nat \<Rightarrow> u64 \<Rightarrow> nat \<Rightarrow> string" where
  "row_at addr len offset c = row_line (of_nat c + offset) (take 16 (drop c (take len addr)))"

definition separator :: "nat \<Rightarrow> string list" where
  "separator n = replicate (n - 1) [SEPARATOR_CHAR] @ [[CHR 0x0A]]"

definition hexdump_lines :: "u8 list \<Rightarrow> nat \<Rightarrow> u64 \<Rightarrow> string list" where
  "hexdump_lines addr len offset =
     fst (hexdump_loop writes_succeed addr offset len 0 0 0 0
            (replicate HEXDUMP_ROW_HEX_LEN NUL) (replicate HEXDUMP_ROW_ASCII_LEN NUL) [])"

definition dump_rows :: "u8 list \<Rightarrow> nat \<Rightarrow> u64 \<Rightarrow> string list" where
  "dump_rows addr len offset = map (\<lambda>j. row_at addr len offset (16 * j)) [0..<(len + 15) div 16]"

definition stars_follow_rows :: "string set \<Rightarrow> string list \<Rightarrow> bool" where
  "stars_follow_rows R ls = (\<forall>i<length ls. ls ! i = star_line \<longrightarrow> 0 < i \<and> ls ! (i - 1) \<in> R)"

fun spaced :: "string list \<Rightarrow> string" where
  "spaced [] = []"
| "spaced [t] = t"
| "spaced (t # ts) = t @ '' '' @ spaced ts"

definition hex_column :: "u8 list \<Rightarrow> string" where
  "hex_column row =
     spaced (map fmt_02x (take 8 row)) @
     (if 8 < length row then ''  '' @ spaced (map fmt_02x (drop 8 row)) else [])"

definition row_shape :: "u64 \<Rightarrow> u8 list \<Rightarrow> string" where
  "row_shape x row =
     fmt_08lx x @ ''  '' @ pad_right 49 (hex_column row) @ '' '' @ ''|'' @
     pad_right 16 (ascii_text row) @ ''|'' @ [CHR 0x0A]"

text \<open>
  The size rule in the words of the specification: divide by 1024 while the
  value is at least 1024 and a unit letter remains in K, M, G, T; a value below
  1024 is printed in decimal.
\<close>

definition spec_units :: "char list" where
  "spec_units = ''KMGT''"

function spec_size_loop :: "double \<Rightarrow> int \<Rightarrow> double \<times> int" where
  "spec_size_loop v u =
     (if double_ge_1024 v \<and> u + 1 < int (length spec_units)
      then spec_size_loop (double_div_1024 v) (u + 1)
      else (v, u))"
  by pat_completeness auto
termination
  by (relation "measure (\<lambda>(v, u). nat (int (length spec_units) - u))") auto

declare spec_size_loop.simps [simp del]

definition spec_size_str :: "u64 \<Rightarrow> int \<Rightarrow> string" where
  "spec_size_str sz human =
     (if human = 0 then dec_digits (unat sz)
      else
        let (v, u) = spec_size_loop (unat sz, 0) (- 1)
        in if 0 \<le> u then
             if human = 1 then fmt_1f v @ [spec_units ! nat u]
             else fmt_1f v @ [spec_units ! nat u] @ '' ['' @ dec_digits (unat sz) @ '']''
           else dec_digits (unat sz))"

text \<open>The checksum text in the words of the specification, from the two 64-bit values.\<close>

definition spec_checksum_str :: "bool \<Rightarrow> u64 \<Rightarrow> u64 \<Rightarrow> string" where
  "spec_checksum_str valid stored expected =
     (if valid then ''0x'' @ fmt_08lx stored @ '' [OK]''
      else ''0x'' @ fmt_08lx stored @ '' [wrong! should be: 0x'' @ fmt_08lx expected @ '']'')"

text \<open>Two validators for the examples: one accepts, one rejects and leaves a value behind.\<close>

definition validator_accepts :: "heap \<Rightarrow> nat \<Rightarrow> nat \<Rightarrow> nat \<Rightarrow> int \<times> heap" where
  "validator_accepts h addr len csump = (1, h)"

definition validator_rejects :: "u64 \<Rightarrow> heap \<Rightarrow> nat \<Rightarrow> nat \<Rightarrow> nat \<Rightarrow> int \<times> heap" where
  "validator_rejects expected h addr len csump = (0, store64 h csump expected)"

text \<open>A state for the examples: verbosity 0, standard output, no prefix, nothing written.\<close>

definition st_example :: out_state where
  "st_example = \<lparr>out_vlevel = 0, out_column_width = 20, out_fh = Some Stdout,
                  out_prefix = None, written = (\<lambda>_. [])\<rparr>"

section \<open>Lemmas\<close>

lemma hex_digit_not_NUL: "d < 16 \<Longrightarrow> hex_digit d \<noteq> NUL"
proof -
  assume "d < 16"
  then have "hex_digit d \<in> set ''0123456789abcdef''"
    unfolding hex_digit_def by (intro nth_mem) simp
  then show ?thesis by (auto simp: NUL_def)
qed

lemma hex_digits_byte:
  "n < 256 \<Longrightarrow> hex_digits n = (if n < 16 then [hex_digit n] else [hex_digit (n div 16), hex_digit (n mod 16)])"
  by (subst hex_digits.simps, subst hex_digits.simps) auto

lemma fmt_02x_eq: "fmt_02x b = [hex_digit (unat b div 16), hex_digit (unat b mod 16)]"
proof -
  have "unat b < 256" using unsigned_less [of b] by simp
  then show ?thesis
    by (auto simp: fmt_02x_def hex_digits_byte pad_left_def hex_digit_def)
qed

lemma length_fmt_02x [simp]: "length (fmt_02x b) = 2"
  by (simp add: fmt_02x_eq)

lemma NUL_notin_fmt_02x [simp]: "NUL \<notin> set (fmt_02x b)"
proof -
  have "unat b < 256" using unsigned_less [of b] by simp
  then have "unat b div 16 < 16" by simp
  then show ?thesis
    using hex_digit_not_NUL [of "unat b div 16"] hex_digit_not_NUL [of "unat b mod 16"]
    by (auto simp: fmt_02x_eq)
qed

lemma length_hex_tokens [simp]: "length (hex_tokens row) = 3 * length row"
  by (induction row) (simp_all add: hex_tokens_def)

lemma NUL_notin_hex_tokens [simp]: "NUL \<notin> set (hex_tokens row)"
  by (induction row) (simp_all add: hex_tokens_def, simp add: NUL_def)

lemma length_hex_text: "length (hex_text row) = 3 * length row + (if length row > 8 then 1 else 0)"
  by (auto simp: hex_text_def min_def)

lemma NUL_notin_hex_text [simp]: "NUL \<notin> set (hex_text row)"
  by (simp add: hex_text_def, simp add: NUL_def)

lemma printable_not_NUL [simp]: "out_get_printable_ascii c \<noteq> NUL"
  by (auto simp: out_get_printable_ascii_def isprint_def NUL_def)

lemma length_ascii_text [simp]: "length (ascii_text row) = length row"
  by (simp add: ascii_text_def)

lemma NUL_notin_ascii_text [simp]: "NUL \<notin> set (ascii_text row)"
proof -
  have "\<And>c. NUL \<noteq> out_get_printable_ascii c"
    using printable_not_NUL by metis
  then show ?thesis by (auto simp: ascii_text_def)
qed

lemma hex_tokens_snoc: "hex_tokens (xs @ [x]) = hex_tokens xs @ fmt_02x x @ '' ''"
  by (simp add: hex_tokens_def)

lemma hex_text_snoc:
  assumes "length xs < 16"
  shows "hex_text (xs @ [x]) =
         hex_text xs @ (if length xs \<noteq> 0 \<and> length xs mod 8 = 0 then '' '' else []) @ fmt_02x x @ '' ''"
proof -
  consider "length xs < 8" | "length xs = 8" | "8 < length xs"
    by linarith
  then show ?thesis
  proof cases
    case 1
    then show ?thesis
      by (auto simp: hex_text_def hex_tokens_snoc)
  next
    case 2
    then show ?thesis
      by (simp add: hex_text_def hex_tokens_def)
  next
    case 3
    with assms have "length xs mod 8 \<noteq> 0" by presburger
    with 3 show ?thesis
      by (simp add: hex_text_def hex_tokens_snoc)
  qed
qed

lemma hex_text_step:
  assumes "i < length d" "i < 16"
  shows "hex_text (take (Suc i) d) =
         hex_text (take i d) @ (if i \<noteq> 0 \<and> i mod 8 = 0 then '' '' else []) @ fmt_02x (d ! i) @ '' ''"
  using assms hex_text_snoc [of "take i d" "d ! i"]
  by (simp add: take_Suc_conv_app_nth min_def)

lemma ascii_text_step:
  "i < length d \<Longrightarrow> ascii_text (take (Suc i) d) = ascii_text (take i d) @ [out_get_printable_ascii (char_of (unat (d ! i)))]"
  by (simp add: ascii_text_def take_Suc_conv_app_nth)

text \<open>A write that fits.\<close>

lemma snprintf_fits:
  assumes "length text < sz" "pos + sz \<le> length buf"
  shows "snprintf buf pos sz text =
           (take pos buf @ text @ [NUL] @ drop (pos + length text + 1) buf, int (length text))"
  using assms by (simp add: snprintf_def poke_def)

lemma c_str_holds: "NUL \<notin> set t \<Longrightarrow> c_str (t @ NUL # rest) = t"
  by (induction t) (auto simp: c_str_def)

text \<open>Appending to the text a buffer holds, with room for it and the NUL.\<close>

lemma snprintf_append:
  assumes "take (length t) buf = t" "length t + length text < length buf"
  shows "\<exists>buf'. snprintf buf (length t) (length buf - length t) text = (buf', int (length text)) \<and>
           length buf' = length buf \<and>
           take (length (t @ text)) buf' = t @ text \<and>
           buf' ! (length (t @ text)) = NUL"
proof -
  let ?b = "take (length t) buf @ text @ [NUL] @ drop (length t + length text + 1) buf"
  have "snprintf buf (length t) (length buf - length t) text = (?b, int (length text))"
    using assms(2) by (subst snprintf_fits) simp_all
  moreover have "length ?b = length buf" using assms(2) by simp
  moreover have "take (length (t @ text)) ?b = t @ text" using assms by simp
  moreover have "?b ! (length (t @ text)) = NUL"
    using assms by (simp add: nth_append)
  ultimately show ?thesis by blast
qed

lemma hex_loop_fixed:
  assumes "len \<le> 16" "len \<le> length datap" "i \<le> len"
    and "length str = 50" "take (length (hex_text (take i datap))) str = hex_text (take i datap)"
    and "c = int (length (hex_text (take i datap)))"
    and "0 < i \<longrightarrow> str ! (length (hex_text (take i datap))) = NUL"
  shows "\<exists>str'. hex_loop str 50 datap len i c = (int (length (hex_text (take len datap))), str') \<and>
           length str' = 50 \<and>
           take (length (hex_text (take len datap))) str' = hex_text (take len datap) \<and>
           (0 < len \<longrightarrow> str' ! (length (hex_text (take len datap))) = NUL)"
  using assms
proof (induction "len - i" arbitrary: i str c)
  case 0
  then have "i = len" by simp
  with 0 show ?case by (subst hex_loop.simps) auto
next
  case (Suc k)
  then have il: "i < len" and i16: "i < 16" and id: "i < length datap" by auto
  define t where "t = hex_text (take i datap)"
  define sp where "sp = (if i \<noteq> 0 \<and> i mod 8 = 0 then '' '' else [])"
  define tok where "tok = fmt_02x (datap ! i) @ '' ''"
  define u where "u = t @ sp"
  have lt: "length t = 3 * i + (if i > 8 then 1 else 0)"
    using id by (simp add: t_def length_hex_text min_def)
  have nxt: "hex_text (take (Suc i) datap) = u @ tok"
    using hex_text_step [OF id i16] by (simp add: t_def sp_def tok_def u_def)
  have bt: "length t \<le> 46" using lt i16 by auto
  have bu: "length u \<le> 46" using lt i16 by (auto simp: u_def sp_def; presburger)
  have ltok: "length tok = 3" by (simp add: tok_def)
  have nc: "nat c = length t" and c: "c = int (length t)" using Suc.prems by (simp_all add: t_def)
  have tt: "take (length t) str = t" using Suc.prems by (simp add: t_def)
  have ls: "length str = 50" using Suc.prems by simp
  obtain str1 where s1: "(if i \<noteq> 0 \<and> i mod 8 = 0 then
                 let (s, r) = snprintf str (nat c) (50 - nat c) '' '' in (s, c + r)
               else (str, c)) = (str1, int (length u))"
     and l1: "length str1 = 50" and t1: "take (length u) str1 = u"
  proof (cases "i \<noteq> 0 \<and> i mod 8 = 0")
    case True
    from snprintf_append [OF tt, of "'' ''"] bt ls
    obtain b' where "snprintf str (length t) (50 - length t) '' '' = (b', 1)"
      "length b' = 50" "take (length (t @ '' '')) b' = t @ '' ''"
      by auto
    with True that [of b'] show ?thesis
      by (simp add: nc c u_def sp_def)
  next
    case False
    with that [of str] tt ls show ?thesis
      by (auto simp add: nc c u_def sp_def)
  qed
  from snprintf_append [OF t1, of tok] bu l1 ltok
  obtain str2 where s2: "snprintf str1 (length u) (50 - length u) tok = (str2, 3)"
    and l2: "length str2 = 50" and t2: "take (length (u @ tok)) str2 = u @ tok"
    and n2: "str2 ! (length (u @ tok)) = NUL"
    by auto
  have step: "hex_loop str 50 datap len i c =
        hex_loop str2 50 datap len (Suc i) (int (length (hex_text (take (Suc i) datap))))"
    apply (subst hex_loop.simps)
    apply (simp only: il if_True s1 [unfolded Let_def] Let_def prod.case nat_int s2 [unfolded tok_def])
    apply (simp add: nxt tok_def)
    done
  have k: "k = len - Suc i" using Suc.hyps by simp
  have "Suc i \<le> len" using il by simp
  from Suc.hyps(1) [OF k Suc.prems(1) Suc.prems(2) this l2 _ refl] t2 n2 il
  show ?case unfolding step nxt by simp
qed

lemma ascii_loop_fixed:
  assumes "len \<le> 16" "len \<le> length datap" "i \<le> len"
    and "length str = 17" "take i str = ascii_text (take i datap)"
    and "c = int i"
    and "0 < i \<longrightarrow> str ! i = NUL"
  shows "\<exists>str'. ascii_loop str 17 datap len i c = (int len, str') \<and>
           length str' = 17 \<and>
           take len str' = ascii_text (take len datap) \<and>
           (0 < len \<longrightarrow> str' ! len = NUL)"
  using assms
proof (induction "len - i" arbitrary: i str c)
  case 0
  then have "i = len" by simp
  with 0 show ?case by (subst ascii_loop.simps) auto
next
  case (Suc k)
  then have il: "i < len" and i16: "i < 16" and id: "i < length datap" by auto
  define t where "t = ascii_text (take i datap)"
  define pch where "pch = out_get_printable_ascii (char_of (unat (datap ! i)))"
  have lt: "length t = i" using id by (simp add: t_def)
  have nxt: "ascii_text (take (Suc i) datap) = t @ [pch]"
    using ascii_text_step [OF id] by (simp add: t_def pch_def)
  have tt: "take (length t) str = t" using Suc.prems lt by (simp add: t_def)
  have ls: "length str = 17" using Suc.prems by simp
  from snprintf_append [OF tt, of "[pch]"] ls lt i16
  obtain str2 where s2: "snprintf str i (17 - i) [pch] = (str2, 1)"
    and l2: "length str2 = 17" and t2: "take (Suc i) str2 = t @ [pch]"
    and n2: "str2 ! (Suc i) = NUL"
    by auto
  have step: "ascii_loop str 17 datap len i c = ascii_loop str2 17 datap len (Suc i) (int (Suc i))"
    apply (subst ascii_loop.simps)
    apply (simp only: il if_True Let_def prod.case nat_int Suc.prems(6) s2 [unfolded pch_def])
    apply (simp add: add.commute)
    done
  have k: "k = len - Suc i" using Suc.hyps by simp
  have "Suc i \<le> len" using il by simp
  from Suc.hyps(1) [OF k Suc.prems(1) Suc.prems(2) this l2 _ refl] t2 n2 il nxt
  show ?case unfolding step by simp
qed

lemma c_str_take_nth:
  assumes "take m buf = t" "buf ! m = NUL" "m < length buf" "NUL \<notin> set t"
  shows "c_str buf = t"
proof -
  have "buf = take m buf @ buf ! m # drop (Suc m) buf"
    using assms(3) by (simp add: id_take_nth_drop [symmetric])
  then have "buf = t @ NUL # drop (Suc m) buf" using assms by simp
  then have "c_str buf = c_str (t @ NUL # drop (Suc m) buf)" by simp
  then show ?thesis using assms(4) by (simp add: c_str_holds)
qed

lemma out_get_hex_str_fixed:
  assumes "0 < len" "len \<le> 16" "len \<le> length datap" "length str = 50"
  shows "\<exists>str'. out_get_hex_str str HEXDUMP_ROW_HEX_LEN datap len =
                  (int (length (hex_text (take len datap))), str') \<and>
           length str' = 50 \<and> c_str str' = hex_text (take len datap)"
proof -
  have h0: "hex_text (take 0 datap) = []" by (simp add: hex_text_def hex_tokens_def)
  from hex_loop_fixed [of len datap 0 str 0] assms h0
  obtain str' where r: "hex_loop str 50 datap len 0 0 = (int (length (hex_text (take len datap))), str')"
    and l: "length str' = 50"
    and t: "take (length (hex_text (take len datap))) str' = hex_text (take len datap)"
    and n: "str' ! (length (hex_text (take len datap))) = NUL"
    by auto
  have "length (hex_text (take len datap)) < 50"
    using assms by (simp add: length_hex_text min_def)
  with t n l have "c_str str' = hex_text (take len datap)"
    by (intro c_str_take_nth [where m = "length (hex_text (take len datap))"]) simp_all
  with r l assms show ?thesis
    by (simp add: out_get_hex_str_def HEXDUMP_ROW_HEX_LEN_def HEXDUMP_ROW_WIDTH_def)
qed

lemma out_get_ascii_str_fixed:
  assumes "0 < len" "len \<le> 16" "len \<le> length datap" "length str = 17"
  shows "\<exists>str'. out_get_ascii_str str HEXDUMP_ROW_ASCII_LEN datap len = (int len, str') \<and>
           length str' = 17 \<and> c_str str' = ascii_text (take len datap)"
proof -
  have h0: "ascii_text (take 0 datap) = []" by (simp add: ascii_text_def)
  from ascii_loop_fixed [of len datap 0 str 0] assms h0
  obtain str' where r: "ascii_loop str 17 datap len 0 0 = (int len, str')"
    and l: "length str' = 17"
    and t: "take len str' = ascii_text (take len datap)"
    and n: "str' ! len = NUL"
    by auto
  from t n l assms have "c_str str' = ascii_text (take len datap)"
    by (intro c_str_take_nth [where m = len]) simp_all
  with r l assms show ?thesis
    by (simp add: out_get_ascii_str_def HEXDUMP_ROW_ASCII_LEN_def HEXDUMP_ROW_WIDTH_def)
qed

lemma memcmp_eq_0:
  "n \<le> length a \<Longrightarrow> n \<le> length b \<Longrightarrow> (memcmp a b n = 0) = (take n a = take n b)"
proof (induction a b n rule: memcmp.induct)
  case (1 x xs y ys n)
  then show ?case by (auto simp: word_uint_eq_iff)
qed auto

lemma fprintf_out_succeed:
  "fprintf_out writes_succeed out text = (int (length text), out @ [text])"
  by (simp add: fprintf_out_def writes_succeed_def)

lemma loop_stop_io:
  "hexdump_loop fails datap offset 0 cur prev rep n hb ab out = (out, n)"
  by (subst hexdump_loop.simps) simp

lemma loop_stop:
  "hexdump_loop writes_succeed datap offset 0 cur prev rep n hb ab out = (out, n)"
  by (rule loop_stop_io)

lemma loop_elide:
  assumes "16 < len" "cur \<noteq> 0" "cur + len \<le> length datap" "prev \<le> cur"
    and "take 16 (drop prev datap) = take 16 (drop cur datap)"
  shows "hexdump_loop writes_succeed datap offset len cur prev rep n hb ab out =
         hexdump_loop writes_succeed datap offset (len - 16) (cur + 16) prev (if rep = 0 then 1 else rep) n hb ab
           (if rep = 0 then out @ [star_line] else out)"
proof -
  have "memcmp (drop prev datap) (drop cur datap) 16 = 0"
    using assms by (subst memcmp_eq_0) auto
  with assms(1,2) show ?thesis
    by (subst hexdump_loop.simps) (simp add: HEXDUMP_ROW_WIDTH_def Let_def fprintf_out_succeed)
qed

lemma loop_print_io:
  assumes "0 < len" "cur + len \<le> length datap" "prev \<le> cur" "length hb = 50" "length ab = 17"
    and "\<not> (16 < len \<and> cur \<noteq> 0 \<and> take 16 (drop prev datap) = take 16 (drop cur datap))"
  shows "\<exists>hb' ab'. length hb' = 50 \<and> length ab' = 17 \<and>
           hexdump_loop fails datap offset len cur prev rep n hb ab out =
           hexdump_loop fails datap offset (len - min len 16) (cur + min len 16) cur 0
             (fst (fprintf_out fails out (row_at datap (cur + len) offset cur))) hb' ab'
             (snd (fprintf_out fails out (row_at datap (cur + len) offset cur)))"
proof -
  define cl where "cl = min len 16"
  have cl: "0 < cl" "cl \<le> 16" "cl \<le> length (drop cur datap)"
    using assms by (auto simp: cl_def)
  have ne: "\<not> (len \<noteq> cl \<and> cur \<noteq> 0 \<and> memcmp (drop prev datap) (drop cur datap) cl = 0)"
  proof (cases "16 < len")
    case True
    then have "cl = 16" by (simp add: cl_def)
    moreover have "(memcmp (drop prev datap) (drop cur datap) 16 = 0) =
        (take 16 (drop prev datap) = take 16 (drop cur datap))"
      using assms True by (subst memcmp_eq_0) auto
    ultimately show ?thesis using assms(6) True by simp
  next
    case False
    then show ?thesis by (simp add: cl_def)
  qed
  from out_get_hex_str_fixed [OF cl assms(4)]
  obtain hb' where h: "out_get_hex_str hb HEXDUMP_ROW_HEX_LEN (drop cur datap) cl =
        (int (length (hex_text (take cl (drop cur datap)))), hb')"
    and lh: "length hb' = 50" and ch: "c_str hb' = hex_text (take cl (drop cur datap))"
    by blast
  from out_get_ascii_str_fixed [OF cl assms(5)]
  obtain ab' where a: "out_get_ascii_str ab HEXDUMP_ROW_ASCII_LEN (drop cur datap) cl = (int cl, ab')"
    and la: "length ab' = 17" and ca: "c_str ab' = ascii_text (take cl (drop cur datap))"
    by blast
  have row: "take 16 (drop cur (take (cur + len) datap)) = take cl (drop cur datap)"
    by (simp add: cl_def drop_take min_def)
  have hpos: "length (hex_text (take cl (drop cur datap))) \<noteq> 0"
    using cl by (simp add: length_hex_text min_def)
  have line: "hexdump_row (of_nat cur + offset) hb' ab' = row_at datap (cur + len) offset cur"
    by (simp add: hexdump_row_def row_at_def row_line_def ch ca row)
  have pr: "hexdump_print fails (int (length (hex_text (take cl (drop cur datap))))) (int cl)
              (of_nat cur + offset) hb' ab' n out =
            (fst (fprintf_out fails out (row_at datap (cur + len) offset cur)),
             snd (fprintf_out fails out (row_at datap (cur + len) offset cur)))"
    using cl(1) hpos by (simp add: hexdump_print_def line)
  have "hexdump_loop fails datap offset len cur prev rep n hb ab out =
        hexdump_loop fails datap offset (len - cl) (cur + cl) cur 0
             (fst (fprintf_out fails out (row_at datap (cur + len) offset cur))) hb' ab'
             (snd (fprintf_out fails out (row_at datap (cur + len) offset cur)))"
    apply (subst hexdump_loop.simps)
    apply (simp only: Let_def HEXDUMP_ROW_WIDTH_def cl_def [symmetric])
    apply (simp only: ne if_False h a pr prod.case)
    using assms(1) apply simp
    done
  with lh la show ?thesis unfolding cl_def by blast
qed

lemma loop_print:
  assumes "0 < len" "cur + len \<le> length datap" "prev \<le> cur" "length hb = 50" "length ab = 17"
    and "\<not> (16 < len \<and> cur \<noteq> 0 \<and> take 16 (drop prev datap) = take 16 (drop cur datap))"
  shows "\<exists>hb' ab'. length hb' = 50 \<and> length ab' = 17 \<and>
           hexdump_loop writes_succeed datap offset len cur prev rep n hb ab out =
           hexdump_loop writes_succeed datap offset (len - min len 16) (cur + min len 16) cur 0
             (int (length (row_at datap (cur + len) offset cur))) hb' ab'
             (out @ [row_at datap (cur + len) offset cur])"
  using loop_print_io [OF assms, of writes_succeed offset rep n out]
  by (simp add: fprintf_out_succeed)

lemma sep_loop_returns:
  "1 \<le> n \<Longrightarrow> sep_loop writes_succeed n out = Some (out @ replicate (nat (n - 1)) [SEPARATOR_CHAR])"
proof (induction "nat (n - 1)" arbitrary: n out)
  case 0
  then have "n = 1" by simp
  then show ?case by (subst sep_loop.simps) simp
next
  case (Suc k)
  then have n: "n - 1 \<noteq> 0" "1 \<le> n - 1" "k = nat (n - 1 - 1)" by auto
  have "nat (n - 1) = Suc (nat (n - 1 - 1))" using n by simp
  then have r: "replicate (nat (n - 1)) [SEPARATOR_CHAR] =
      [SEPARATOR_CHAR] # replicate (nat (n - 1 - 1)) [SEPARATOR_CHAR]" by simp
  show ?case
    apply (subst sep_loop.simps)
    apply (simp only: n(1) if_True HOL.simp_thms fprintf_out_succeed snd_conv
             Suc.hyps(1) [OF n(3) n(2)] r)
    apply simp
    done
qed

lemma sep_loop_pos:
  assumes "sep_loop fails n out = Some ls"
  shows "1 \<le> n"
proof (rule sep_loop.raw_induct [where P = "\<lambda>fails n out ls. 1 \<le> n", OF _ assms])
  fix f :: "write_fails \<Rightarrow> int \<Rightarrow> string list \<Rightarrow> string list option" and fails n out ls
  assume ih: "\<And>fails n out ls. f fails n out = Some ls \<Longrightarrow> 1 \<le> n"
    and e: "(if n - 1 \<noteq> 0 then f fails (n - 1) (snd (fprintf_out fails out [SEPARATOR_CHAR]))
             else Some out) = Some ls"
  show "1 \<le> n"
  proof (cases "n - 1 = 0")
    case True
    then show ?thesis by simp
  next
    case False
    with e have "f fails (n - 1) (snd (fprintf_out fails out [SEPARATOR_CHAR])) = Some ls"
      by simp
    from ih [OF this] show ?thesis by simp
  qed
qed

lemma sep_loop_no_return:
  assumes "n < 1"
  shows "sep_loop fails n out = None"
proof (cases "sep_loop fails n out")
  case None
  then show ?thesis .
next
  case (Some ls)
  from sep_loop_pos [OF Some] assms show ?thesis by simp
qed

lemma fprintf_all_Some:
  "fprintf_all (Some f) ls st = Inr (st\<lparr>written := (written st)(f := written st f @ ls)\<rparr>)"
  by (induction ls arbitrary: st) (simp_all add: fprintf_def)

lemma loop_last:
  assumes "0 < len" "cur + len \<le> length datap" "prev \<le> cur" "length hb = 50" "length ab = 17"
  shows "\<exists>ys. hexdump_loop writes_succeed datap offset len cur prev rep n hb ab out =
           (out @ ys @ [row_at datap (cur + len) offset (cur + 16 * ((len - 1) div 16))],
            int (length (row_at datap (cur + len) offset (cur + 16 * ((len - 1) div 16)))))"
  using assms
proof (induction len arbitrary: cur prev rep n hb ab out rule: less_induct)
  case (less len)
  show ?case
  proof (cases "len \<le> 16")
    case True
    then have m: "min len 16 = len" "(len - 1) div 16 = 0" using less.prems(1) by auto
    have "\<not> (16 < len \<and> cur \<noteq> 0 \<and> take 16 (drop prev datap) = take 16 (drop cur datap))"
      using True by simp
    from loop_print [OF less.prems(1-5) this, of offset rep n out]
    obtain hb' ab' where "hexdump_loop writes_succeed datap offset len cur prev rep n hb ab out =
           hexdump_loop writes_succeed datap offset 0 (cur + len) cur 0
             (int (length (row_at datap (cur + len) offset cur))) hb' ab'
             (out @ [row_at datap (cur + len) offset cur])"
      unfolding m by auto
    then have "hexdump_loop writes_succeed datap offset len cur prev rep n hb ab out =
           (out @ [] @ [row_at datap (cur + len) offset (cur + 16 * ((len - 1) div 16))],
            int (length (row_at datap (cur + len) offset (cur + 16 * ((len - 1) div 16)))))"
      unfolding m loop_stop by simp
    then show ?thesis by (rule exI)
  next
    case False
    then have big: "16 < len" "0 < len - 16" "len - 16 < len" by auto
    have "\<exists>m. len = m + 17" using big(1) by (intro exI [of _ "len - 17"]) simp
    then obtain m where lm: "len = m + 17" ..
    have ar: "cur + 16 + 16 * ((len - 16 - 1) div 16) = cur + 16 * ((len - 1) div 16)"
      unfolding lm by simp
    have tot: "cur + 16 + (len - 16) = cur + len" using big by simp
    have d: "cur + 16 + (len - 16) \<le> length datap" using less.prems(2) big by simp
    have m: "min len 16 = 16" using big by simp
    let ?L = "row_at datap (cur + len) offset (cur + 16 * ((len - 1) div 16))"
    show ?thesis
    proof (cases "cur \<noteq> 0 \<and> take 16 (drop prev datap) = take 16 (drop cur datap)")
      case True
      then have c0: "cur \<noteq> 0" and eq: "take 16 (drop prev datap) = take 16 (drop cur datap)"
        by simp_all
      have p: "prev \<le> cur + 16" using less.prems(3) by simp
      define rep' where "rep' = (if rep = 0 then 1 else rep)"
      define out' where "out' = (if rep = 0 then out @ [star_line] else out)"
      from less.IH [OF big(3) big(2) d p less.prems(4,5), of rep' n out']
      obtain ys where r: "hexdump_loop writes_succeed datap offset (len - 16) (cur + 16) prev rep' n hb ab out' =
           (out' @ ys @ [?L], int (length ?L))"
        unfolding ar tot by blast
      have e: "hexdump_loop writes_succeed datap offset len cur prev rep n hb ab out =
               hexdump_loop writes_succeed datap offset (len - 16) (cur + 16) prev rep' n hb ab out'"
        unfolding rep'_def out'_def
        by (rule loop_elide [OF big(1) c0 less.prems(2,3) eq])
      show ?thesis
      proof (cases "rep = 0")
        case True
        then have "out' @ ys @ [?L] = out @ (star_line # ys) @ [?L]" by (simp add: out'_def)
        then show ?thesis unfolding e r by blast
      next
        case False
        then have "out' = out" by (simp add: out'_def)
        then show ?thesis unfolding e r by blast
      qed
    next
      case False
      then have "\<not> (16 < len \<and> cur \<noteq> 0 \<and> take 16 (drop prev datap) = take 16 (drop cur datap))"
        by simp
      from loop_print [OF less.prems(1-5) this, of offset rep n out]
      obtain hb' ab' where l: "length hb' = 50" "length ab' = 17"
        and e: "hexdump_loop writes_succeed datap offset len cur prev rep n hb ab out =
           hexdump_loop writes_succeed datap offset (len - 16) (cur + 16) cur 0
             (int (length (row_at datap (cur + len) offset cur))) hb' ab'
             (out @ [row_at datap (cur + len) offset cur])"
        unfolding m by blast
      have p: "cur \<le> cur + 16" by simp
      from less.IH [OF big(3) big(2) d p l,
          of 0 "int (length (row_at datap (cur + len) offset cur))"
             "out @ [row_at datap (cur + len) offset cur]"]
      obtain ys where r: "hexdump_loop writes_succeed datap offset (len - 16) (cur + 16) cur 0
             (int (length (row_at datap (cur + len) offset cur))) hb' ab'
             (out @ [row_at datap (cur + len) offset cur]) =
           ((out @ [row_at datap (cur + len) offset cur]) @ ys @ [?L], int (length ?L))"
        unfolding ar tot by blast
      have "(out @ [row_at datap (cur + len) offset cur]) @ ys @ [?L] =
            out @ (row_at datap (cur + len) offset cur # ys) @ [?L]" by simp
      then show ?thesis unfolding e r by blast
    qed
  qed
qed

lemma hexdump_loop_top:
  assumes "0 < len" "len \<le> length addr"
  shows "\<exists>ys. hexdump_loop writes_succeed addr offset len 0 0 0 0
                 (replicate HEXDUMP_ROW_HEX_LEN NUL) (replicate HEXDUMP_ROW_ASCII_LEN NUL) [] =
           (row_at addr len offset 0 # ys,
            int (length (row_at addr len offset (16 * ((len - 1) div 16))))) \<and>
           last (row_at addr len offset 0 # ys) = row_at addr len offset (16 * ((len - 1) div 16))"
proof -
  let ?hb = "replicate HEXDUMP_ROW_HEX_LEN NUL" and ?ab = "replicate HEXDUMP_ROW_ASCII_LEN NUL"
  have lh: "length ?hb = 50" and la: "length ?ab = 17"
    by (simp_all add: HEXDUMP_ROW_HEX_LEN_def HEXDUMP_ROW_ASCII_LEN_def HEXDUMP_ROW_WIDTH_def)
  have ne: "\<not> (16 < len \<and> (0::nat) \<noteq> 0 \<and> take 16 (drop 0 addr) = take 16 (drop 0 addr))" by simp
  have d: "0 + len \<le> length addr" using assms by simp
  from loop_print [OF assms(1) d le_refl lh la ne, of offset 0 0 "[]"]
  obtain hb' ab' where l: "length hb' = 50" "length ab' = 17"
    and e: "hexdump_loop writes_succeed addr offset len 0 0 0 0 ?hb ?ab [] =
            hexdump_loop writes_succeed addr offset (len - min len 16) (min len 16) 0 0
              (int (length (row_at addr len offset 0))) hb' ab' [row_at addr len offset 0]"
    by auto
  show ?thesis
  proof (cases "len \<le> 16")
    case True
    then have "min len 16 = len" "(len - 1) div 16 = 0" using assms(1) by auto
    then show ?thesis unfolding e by (simp add: loop_stop)
  next
    case False
    then have big: "16 < len" "0 < len - 16" by auto
    have "\<exists>m. len = m + 17" using big(1) by (intro exI [of _ "len - 17"]) simp
    then obtain m where lm: "len = m + 17" ..
    have ar: "16 + 16 * ((len - 16 - 1) div 16) = 16 * ((len - 1) div 16)"
      unfolding lm by simp
    have tot: "16 + (len - 16) = len" using big by simp
    have m: "min len 16 = 16" using big by simp
    have d': "16 + (len - 16) \<le> length addr" using assms big by simp
    from loop_last [OF big(2) d' _ l, of 0 offset 0 "int (length (row_at addr len offset 0))"
        "[row_at addr len offset 0]"]
    obtain ys where "hexdump_loop writes_succeed addr offset (len - 16) 16 0 0
              (int (length (row_at addr len offset 0))) hb' ab' [row_at addr len offset 0] =
           ([row_at addr len offset 0] @ ys @ [row_at addr len offset (16 * ((len - 1) div 16))],
            int (length (row_at addr len offset (16 * ((len - 1) div 16)))))"
      unfolding ar tot by auto
    then show ?thesis unfolding e m by simp
  qed
qed

lemma hexdump_lines_first_last:
  assumes "0 < len" "len \<le> length addr"
  shows "hexdump_lines addr len offset \<noteq> []"
    and "hd (hexdump_lines addr len offset) = row_at addr len offset 0"
    and "last (hexdump_lines addr len offset) = row_at addr len offset (16 * ((len - 1) div 16))"
    and "hexdump_loop writes_succeed addr offset len 0 0 0 0
                 (replicate HEXDUMP_ROW_HEX_LEN NUL) (replicate HEXDUMP_ROW_ASCII_LEN NUL) [] =
         (hexdump_lines addr len offset, int (length (last (hexdump_lines addr len offset))))"
proof -
  from hexdump_loop_top [OF assms, of offset]
  obtain ys where e: "hexdump_loop writes_succeed addr offset len 0 0 0 0
                 (replicate HEXDUMP_ROW_HEX_LEN NUL) (replicate HEXDUMP_ROW_ASCII_LEN NUL) [] =
           (row_at addr len offset 0 # ys,
            int (length (row_at addr len offset (16 * ((len - 1) div 16)))))"
    and l: "last (row_at addr len offset 0 # ys) = row_at addr len offset (16 * ((len - 1) div 16))"
    by blast
  have h: "hexdump_lines addr len offset = row_at addr len offset 0 # ys"
    by (simp add: hexdump_lines_def e)
  show "hexdump_lines addr len offset \<noteq> []" by (simp add: h)
  show "hd (hexdump_lines addr len offset) = row_at addr len offset 0" by (simp add: h)
  show "last (hexdump_lines addr len offset) = row_at addr len offset (16 * ((len - 1) div 16))"
    unfolding h l ..
  show "hexdump_loop writes_succeed addr offset len 0 0 0 0
                 (replicate HEXDUMP_ROW_HEX_LEN NUL) (replicate HEXDUMP_ROW_ASCII_LEN NUL) [] =
         (hexdump_lines addr len offset, int (length (last (hexdump_lines addr len offset))))"
    unfolding h l e ..
qed

lemma length_fmt_08lx_ge: "8 \<le> length (fmt_08lx x)"
  by (simp add: fmt_08lx_def pad_left_def)

lemma length_pad_right: "length (pad_right w s) = max w (length s)"
  by (simp add: pad_right_def)

lemma length_row_line: "length (row_line x row) = length (fmt_08lx x) + 4 + max 50 (length (hex_text row)) + max 16 (length row) + 1"
  by (simp add: row_line_def length_pad_right HEXDUMP_ROW_HEX_LEN_def HEXDUMP_ROW_WIDTH_def)

lemma row_line_not_star: "row_line x row \<noteq> star_line"
proof
  assume "row_line x row = star_line"
  then have "length (row_line x row) = length star_line" by simp
  then show False using length_fmt_08lx_ge [of x] by (simp add: length_row_line star_line_def)
qed

lemma outv_hexdump_eq:
  assumes "outv_check st vlevel \<noteq> 0" "out_fh st = Some f" "0 < len" "len \<le> length addr"
  shows "outv_hexdump st vlevel addr len offset sep =
         Inr (st\<lparr>written := (written st)(f := written st f @ hexdump_lines addr len offset @
                (if sep \<noteq> 0 then separator (length (last (hexdump_lines addr len offset))) else []))\<rparr>)"
proof -
  let ?ls = "hexdump_lines addr len offset"
  let ?n = "int (length (last ?ls))"
  have pos: "1 \<le> ?n"
    using hexdump_lines_first_last(3) [OF assms(3,4), of offset] length_fmt_08lx_ge
    by (simp add: row_at_def length_row_line)
  then have n0: "last ?ls \<noteq> []" by auto
  have sl: "sep_loop writes_succeed ?n ?ls = Some (?ls @ replicate (nat (?n - 1)) [SEPARATOR_CHAR])"
    using pos by (rule sep_loop_returns)
  have nn: "nat (?n - 1) = length (last ?ls) - 1" by simp
  show ?thesis
    unfolding outv_hexdump_def outv_hexdump_io_def hexdump_lines_first_last(4) [OF assms(3,4)]
    using assms(1,2,3) n0
    by (simp add: sl nn fprintf_all_Some separator_def fprintf_out_succeed)
qed

lemma stars_follow_rows_Nil: "stars_follow_rows R []"
  by (simp add: stars_follow_rows_def)

lemma stars_follow_rows_snoc_row:
  assumes "stars_follow_rows R ls" "l \<noteq> star_line"
  shows "stars_follow_rows R (ls @ [l])"
  unfolding stars_follow_rows_def
proof (intro allI impI)
  fix i assume i: "i < length (ls @ [l])" and s: "(ls @ [l]) ! i = star_line"
  from s assms(2) have "i \<noteq> length ls" by (auto simp: nth_append)
  with i have il: "i < length ls" by simp
  with s have "ls ! i = star_line" by (simp add: nth_append)
  with assms(1) il have "0 < i \<and> ls ! (i - 1) \<in> R" by (simp add: stars_follow_rows_def)
  moreover from il have "i - 1 < length ls" by simp
  ultimately show "0 < i \<and> (ls @ [l]) ! (i - 1) \<in> R" by (simp add: nth_append)
qed

lemma stars_follow_rows_snoc_star:
  assumes "stars_follow_rows R ls" "ls \<noteq> []" "last ls \<in> R"
  shows "stars_follow_rows R (ls @ [star_line])"
  unfolding stars_follow_rows_def
proof (intro allI impI)
  fix i assume i: "i < length (ls @ [star_line])" and s: "(ls @ [star_line]) ! i = star_line"
  show "0 < i \<and> (ls @ [star_line]) ! (i - 1) \<in> R"
  proof (cases "i < length ls")
    case True
    with s have "ls ! i = star_line" by (simp add: nth_append)
    with assms(1) True have "0 < i \<and> ls ! (i - 1) \<in> R" by (simp add: stars_follow_rows_def)
    moreover from True have "i - 1 < length ls" by simp
    ultimately show ?thesis by (simp add: nth_append)
  next
    case False
    with i have "i = length ls" by simp
    with assms(2,3) show ?thesis by (simp add: nth_append last_conv_nth)
  qed
qed

lemma loop_lines:
  assumes "cur + len \<le> length datap" "prev \<le> cur" "length hb = 50" "length ab = 17"
    and "16 dvd cur"
    and "\<forall>c. 16 dvd c \<and> c < cur + len \<longrightarrow> row_at datap (cur + len) offset c \<in> R"
    and "set out \<subseteq> insert star_line R"
    and "stars_follow_rows R out"
    and "rep = 0 \<and> cur \<noteq> 0 \<longrightarrow> out \<noteq> [] \<and> last out \<in> R"
  shows "set (fst (hexdump_loop writes_succeed datap offset len cur prev rep n hb ab out)) \<subseteq> insert star_line R \<and>
         stars_follow_rows R (fst (hexdump_loop writes_succeed datap offset len cur prev rep n hb ab out))"
  using assms
proof (induction len arbitrary: cur prev rep n hb ab out rule: less_induct)
  case (less len)
  show ?case
  proof (cases "len = 0")
    case True
    with less.prems show ?thesis by (simp add: loop_stop)
  next
    case False
    then have pos: "0 < len" by simp
    show ?thesis
    proof (cases "16 < len \<and> cur \<noteq> 0 \<and> take 16 (drop prev datap) = take 16 (drop cur datap)")
      case True
      then have big: "16 < len" and c0: "cur \<noteq> 0"
        and eq: "take 16 (drop prev datap) = take 16 (drop cur datap)" by simp_all
      define rep' where "rep' = (if rep = 0 then 1 else rep)"
      define out' where "out' = (if rep = 0 then out @ [star_line] else out)"
      have e: "hexdump_loop writes_succeed datap offset len cur prev rep n hb ab out =
               hexdump_loop writes_succeed datap offset (len - 16) (cur + 16) prev rep' n hb ab out'"
        unfolding rep'_def out'_def
        by (rule loop_elide [OF big c0 less.prems(1,2) eq])
      have tot: "cur + 16 + (len - 16) = cur + len" using big by simp
      have a1: "cur + 16 + (len - 16) \<le> length datap" using less.prems(1) big by simp
      have a2: "prev \<le> cur + 16" using less.prems(2) by simp
      have a5: "16 dvd cur + 16" using less.prems(5) by simp
      have a6: "\<forall>c. 16 dvd c \<and> c < cur + 16 + (len - 16) \<longrightarrow>
                  row_at datap (cur + 16 + (len - 16)) offset c \<in> R"
        unfolding tot using less.prems(6) .
      have a7: "set out' \<subseteq> insert star_line R" using less.prems(7) by (auto simp: out'_def)
      have a8: "stars_follow_rows R out'"
        using less.prems(8,9) c0 by (auto simp: out'_def intro: stars_follow_rows_snoc_star)
      have a9: "rep' = 0 \<and> cur + 16 \<noteq> 0 \<longrightarrow> out' \<noteq> [] \<and> last out' \<in> R"
        by (simp add: rep'_def)
      have lt: "len - 16 < len" using big by simp
      from less.IH [OF lt a1 a2 less.prems(3,4) a5 a6 a7 a8 a9]
      show ?thesis unfolding e .
    next
      case False
      let ?L = "row_at datap (cur + len) offset cur"
      from loop_print [OF pos less.prems(1-4) False, of offset rep n out]
      obtain hb' ab' where l: "length hb' = 50" "length ab' = 17"
        and e: "hexdump_loop writes_succeed datap offset len cur prev rep n hb ab out =
           hexdump_loop writes_succeed datap offset (len - min len 16) (cur + min len 16) cur 0
             (int (length ?L)) hb' ab' (out @ [?L])"
        by blast
      have inR: "?L \<in> R" using less.prems(5,6) pos by simp
      have a7: "set (out @ [?L]) \<subseteq> insert star_line R" using less.prems(7) inR by auto
      have a8: "stars_follow_rows R (out @ [?L])"
        using less.prems(8) by (intro stars_follow_rows_snoc_row) (simp_all add: row_at_def row_line_not_star)
      show ?thesis
      proof (cases "len \<le> 16")
        case True
        then have "min len 16 = len" by simp
        then show ?thesis unfolding e using a7 a8 by (simp add: loop_stop)
      next
        case False
        then have big: "16 < len" by simp
        then have m: "min len 16 = 16" by simp
        have tot: "cur + 16 + (len - 16) = cur + len" using big by simp
        have a1: "cur + 16 + (len - 16) \<le> length datap" using less.prems(1) big by simp
        have a2: "cur \<le> cur + 16" by simp
        have a5: "16 dvd cur + 16" using less.prems(5) by simp
        have a6: "\<forall>c. 16 dvd c \<and> c < cur + 16 + (len - 16) \<longrightarrow>
                  row_at datap (cur + 16 + (len - 16)) offset c \<in> R"
          unfolding tot using less.prems(6) .
        have a9: "(0::int) = 0 \<and> cur + 16 \<noteq> 0 \<longrightarrow> out @ [?L] \<noteq> [] \<and> last (out @ [?L]) \<in> R"
          using inR by simp
        have lt: "len - 16 < len" using big by simp
        from less.IH [OF lt a1 a2 l a5 a6 a7 a8 a9]
        show ?thesis unfolding e m .
      qed
    qed
  qed
qed

lemma row_at_in_dump_rows:
  assumes "16 dvd c" "c < len"
  shows "row_at addr len offset c \<in> set (dump_rows addr len offset)"
proof -
  from assms(1) obtain j where c: "c = 16 * j" ..
  with assms(2) have "j < (len + 15) div 16" by simp
  then show ?thesis unfolding dump_rows_def c by simp
qed

lemma hexdump_lines_good:
  assumes "len \<le> length addr"
  shows "set (hexdump_lines addr len offset) \<subseteq> insert star_line (set (dump_rows addr len offset))"
    and "stars_follow_rows (set (dump_rows addr len offset)) (hexdump_lines addr len offset)"
proof -
  have lh: "length (replicate HEXDUMP_ROW_HEX_LEN NUL) = 50"
    and la: "length (replicate HEXDUMP_ROW_ASCII_LEN NUL) = 17"
    by (simp_all add: HEXDUMP_ROW_HEX_LEN_def HEXDUMP_ROW_ASCII_LEN_def HEXDUMP_ROW_WIDTH_def)
  have a1: "0 + len \<le> length addr" using assms by simp
  have a6: "\<forall>c. 16 dvd c \<and> c < 0 + len \<longrightarrow>
              row_at addr (0 + len) offset c \<in> set (dump_rows addr len offset)"
    by (simp add: row_at_in_dump_rows)
  have a7: "set [] \<subseteq> insert star_line (set (dump_rows addr len offset))" by simp
  have a9: "(0::int) = 0 \<and> (0::nat) \<noteq> 0 \<longrightarrow> [] \<noteq> [] \<and> last [] \<in> set (dump_rows addr len offset)"
    by simp
  from loop_lines [OF a1 le_refl lh la dvd_0_right a6 a7 stars_follow_rows_Nil a9, of 0]
  show "set (hexdump_lines addr len offset) \<subseteq> insert star_line (set (dump_rows addr len offset))"
    and "stars_follow_rows (set (dump_rows addr len offset)) (hexdump_lines addr len offset)"
    by (simp_all add: hexdump_lines_def)
qed

lemma row_at_replicate:
  assumes "c + 16 \<le> N"
  shows "row_at (replicate N b) N offset c = row_line (of_nat c + offset) (replicate 16 b)"
proof -
  have "min 16 (N - c) = 16" using assms by simp
  then show ?thesis by (simp add: row_at_def)
qed

lemma loop_repeated_rows:
  assumes "cur \<noteq> 0" "prev \<le> cur" "cur + 16 * (j + 1) = N" "length hb = 50" "length ab = 17"
    and "rep \<noteq> 0"
  shows "hexdump_loop writes_succeed (replicate N b) offset (16 * (j + 1)) cur prev rep n hb ab out =
           (out @ [row_line (of_nat (cur + 16 * j) + offset) (replicate 16 b)],
            int (length (row_line (of_nat (cur + 16 * j) + offset) (replicate 16 b))))"
  using assms
proof (induction j arbitrary: cur)
  case 0
  have ne: "\<not> (16 < (16::nat) \<and> cur \<noteq> 0 \<and>
      take 16 (drop prev (replicate N b)) = take 16 (drop cur (replicate N b)))" by simp
  have d: "cur + 16 \<le> length (replicate N b)" using 0 by simp
  from loop_print [OF _ d "0.prems"(2,4,5) ne, of offset rep n out]
  obtain hb' ab' where "hexdump_loop writes_succeed (replicate N b) offset 16 cur prev rep n hb ab out =
           hexdump_loop writes_succeed (replicate N b) offset 0 (cur + 16) cur 0
             (int (length (row_at (replicate N b) (cur + 16) offset cur))) hb' ab'
             (out @ [row_at (replicate N b) (cur + 16) offset cur])"
    by auto
  moreover have "cur + 16 = N" using 0 by simp
  ultimately show ?case by (simp add: loop_stop row_at_replicate)
next
  case (Suc j)
  have big: "16 < 16 * (Suc j + 1)" by simp
  have d: "cur + 16 * (Suc j + 1) \<le> length (replicate N b)" using Suc.prems by simp
  have eq: "take 16 (drop prev (replicate N b)) = take 16 (drop cur (replicate N b))"
    using Suc.prems by (simp add: min_def)
  have e: "hexdump_loop writes_succeed (replicate N b) offset (16 * (Suc j + 1)) cur prev rep n hb ab out =
           hexdump_loop writes_succeed (replicate N b) offset (16 * (j + 1)) (cur + 16) prev rep n hb ab out"
    using loop_elide [OF big Suc.prems(1) d Suc.prems(2) eq, of offset rep n hb ab out] Suc.prems(6)
    by simp
  have a2: "prev \<le> cur + 16" using Suc.prems by simp
  have a3: "cur + 16 + 16 * (j + 1) = N" using Suc.prems by simp
  have ar: "cur + 16 + 16 * j = cur + 16 * Suc j" by simp
  from Suc.IH [OF _ a2 a3 Suc.prems(4,5,6)] show ?case unfolding e ar by simp
qed

lemma hexdump_lines_repeated:
  assumes "3 \<le> k"
  shows "hexdump_lines (replicate (16 * k) b) (16 * k) offset =
           [row_line offset (replicate 16 b), star_line,
            row_line (of_nat (16 * (k - 1)) + offset) (replicate 16 b)]"
proof -
  let ?N = "16 * k" and ?D = "replicate (16 * k) b"
  let ?hb = "replicate HEXDUMP_ROW_HEX_LEN NUL" and ?ab = "replicate HEXDUMP_ROW_ASCII_LEN NUL"
  let ?r0 = "row_line offset (replicate 16 b)"
  have lh: "length ?hb = 50" and la: "length ?ab = 17"
    by (simp_all add: HEXDUMP_ROW_HEX_LEN_def HEXDUMP_ROW_ASCII_LEN_def HEXDUMP_ROW_WIDTH_def)
  have pos: "0 < ?N" and m: "min ?N 16 = 16" using assms by simp_all
  have ne: "\<not> (16 < ?N \<and> (0::nat) \<noteq> 0 \<and> take 16 (drop 0 ?D) = take 16 (drop 0 ?D))" by simp
  have d: "0 + ?N \<le> length ?D" by simp
  have r0: "row_at ?D ?N offset 0 = ?r0" using assms by (simp add: row_at_replicate)
  from loop_print [OF pos d le_refl lh la ne, of offset 0 0 "[]"]
  obtain hb' ab' where l: "length hb' = 50" "length ab' = 17"
    and e1: "hexdump_loop writes_succeed ?D offset ?N 0 0 0 0 ?hb ?ab [] =
            hexdump_loop writes_succeed ?D offset (?N - 16) 16 0 0 (int (length ?r0)) hb' ab' [?r0]"
    unfolding m by (auto simp: r0)
  have big: "16 < ?N - 16" using assms by simp
  have d2: "16 + (?N - 16) \<le> length ?D" using assms by simp
  have eq: "take 16 (drop 0 ?D) = take 16 (drop 16 ?D)" using assms by (simp add: min_def)
  have e2: "hexdump_loop writes_succeed ?D offset (?N - 16) 16 0 0 (int (length ?r0)) hb' ab' [?r0] =
            hexdump_loop writes_succeed ?D offset (?N - 16 - 16) 32 0 1 (int (length ?r0)) hb' ab' [?r0, star_line]"
    using loop_elide [OF big _ d2 _ eq, of offset 0 "int (length ?r0)" hb' ab' "[?r0]"] by simp
  have "\<exists>j. k = j + 3" using assms by (intro exI [of _ "k - 3"]) simp
  then obtain j where k: "k = j + 3" ..
  have len3: "?N - 16 - 16 = 16 * (j + 1)" unfolding k by simp
  have a3: "32 + 16 * (j + 1) = ?N" unfolding k by simp
  have last: "32 + 16 * j = 16 * (k - 1)" unfolding k by simp
  have e3: "hexdump_loop writes_succeed ?D offset (16 * (j + 1)) 32 0 1 (int (length ?r0)) hb' ab' [?r0, star_line] =
           ([?r0, star_line] @ [row_line (of_nat (32 + 16 * j) + offset) (replicate 16 b)],
            int (length (row_line (of_nat (32 + 16 * j) + offset) (replicate 16 b))))"
    by (rule loop_repeated_rows [OF _ _ a3 l]) simp_all
  show ?thesis
    unfolding hexdump_lines_def e1 e2 len3 e3 last by simp
qed

lemma hexdump_lines_single:
  assumes "0 < len" "len \<le> 16" "len \<le> length addr"
  shows "hexdump_lines addr len offset = [row_at addr len offset 0]"
proof -
  from hexdump_loop_top [OF assms(1,3), of offset]
  obtain ys where e: "hexdump_loop writes_succeed addr offset len 0 0 0 0
                 (replicate HEXDUMP_ROW_HEX_LEN NUL) (replicate HEXDUMP_ROW_ASCII_LEN NUL) [] =
           (row_at addr len offset 0 # ys,
            int (length (row_at addr len offset (16 * ((len - 1) div 16)))))"
    by blast
  have lh: "length (replicate HEXDUMP_ROW_HEX_LEN NUL) = 50"
    and la: "length (replicate HEXDUMP_ROW_ASCII_LEN NUL) = 17"
    by (simp_all add: HEXDUMP_ROW_HEX_LEN_def HEXDUMP_ROW_ASCII_LEN_def HEXDUMP_ROW_WIDTH_def)
  have ne: "\<not> (16 < len \<and> (0::nat) \<noteq> 0 \<and> take 16 (drop 0 addr) = take 16 (drop 0 addr))" by simp
  have d: "0 + len \<le> length addr" using assms by simp
  have m: "min len 16 = len" using assms by simp
  from loop_print [OF assms(1) d le_refl lh la ne, of offset 0 0 "[]"]
  show ?thesis unfolding hexdump_lines_def m by (auto simp: loop_stop)
qed

lemma replicate_numeral: "replicate (numeral k) x = x # replicate (pred_numeral k) x"
  by (simp add: numeral_eq_Suc)

lemma hex_tokens_spaced: "row \<noteq> [] \<Longrightarrow> hex_tokens row = spaced (map fmt_02x row) @ '' ''"
proof (induction row)
  case Nil
  then show ?case by simp
next
  case (Cons b row)
  then show ?case by (cases row) (simp_all add: hex_tokens_def)
qed

lemma hex_text_column: "row \<noteq> [] \<Longrightarrow> hex_text row = hex_column row @ '' ''"
proof (cases "8 < length row")
  case True
  then have "take 8 row \<noteq> []" "drop 8 row \<noteq> []" by auto
  with True show ?thesis by (simp add: hex_text_def hex_column_def hex_tokens_spaced)
next
  case False
  assume "row \<noteq> []"
  with False show ?thesis by (simp add: hex_text_def hex_column_def hex_tokens_spaced)
qed

lemma pad_right_snoc_space: "pad_right (Suc w) (s @ '' '') = pad_right w s @ '' ''"
  by (simp add: pad_right_def replicate_append_same)

lemma row_line_shape:
  assumes "row \<noteq> []"
  shows "row_line x row = row_shape x row"
proof -
  have "pad_right HEXDUMP_ROW_HEX_LEN (hex_text row) = pad_right 49 (hex_column row) @ '' ''"
    using pad_right_snoc_space [of 49 "hex_column row"] assms
    by (simp add: hex_text_column HEXDUMP_ROW_HEX_LEN_def HEXDUMP_ROW_WIDTH_def)
  then show ?thesis
    by (simp add: row_line_def row_shape_def HEXDUMP_ROW_WIDTH_def)
qed

lemma length_hex_column:
  assumes "row \<noteq> []" "length row \<le> 16"
  shows "length (hex_column row) \<le> 48"
proof -
  have "length (hex_text row) = length (hex_column row) + 1"
    using assms(1) by (simp add: hex_text_column)
  moreover have "length (hex_text row) \<le> 49" using assms(2) by (simp add: length_hex_text)
  ultimately show ?thesis by simp
qed

lemma length_hex_digits: "0 < k \<Longrightarrow> n < 16 ^ k \<Longrightarrow> length (hex_digits n) \<le> k"
proof (induction n arbitrary: k rule: hex_digits.induct)
  case (1 n)
  show ?case
  proof (cases "n < 16")
    case True
    with 1 show ?thesis by (subst hex_digits.simps) simp
  next
    case False
    with "1.prems" have k: "1 < k" by (cases "k = 1") auto
    then obtain k' where k': "k = Suc k'" "0 < k'" by (cases k) auto
    with "1.prems" have "n div 16 < 16 ^ k'"
      by (simp add: less_mult_imp_div_less mult.commute)
    with 1(1) [OF False k'(2)] have "length (hex_digits (n div 16)) \<le> k'" by simp
    with False k' show ?thesis by (subst hex_digits.simps) simp
  qed
qed

lemma length_fmt_08lx_small: "unat x < 2 ^ 32 \<Longrightarrow> length (fmt_08lx x) = 8"
proof -
  assume "unat x < 2 ^ 32"
  then have "unat x < 16 ^ 8" by simp
  then have "length (hex_digits (unat x)) \<le> 8" by (intro length_hex_digits) simp_all
  then show ?thesis by (simp add: fmt_08lx_def pad_left_def)
qed

lemma length_row_line_16:
  assumes "length row \<le> 16"
  shows "length (row_line x row) = length (fmt_08lx x) + 71"
proof -
  have "length (hex_text row) \<le> 50" using assms by (simp add: length_hex_text)
  with assms show ?thesis by (simp add: length_row_line)
qed

lemma star_notin_dump_rows: "star_line \<notin> set (dump_rows addr len offset)"
proof
  assume "star_line \<in> set (dump_rows addr len offset)"
  then obtain x row where "star_line = row_line x row"
    by (auto simp: dump_rows_def row_at_def)
  then show False using row_line_not_star [of x row] by simp
qed

lemma star_notin_separator: "star_line \<notin> set (separator n)"
  by (auto simp: separator_def star_line_def SEPARATOR_CHAR_def)

lemma concat_separator: "concat (separator n) = replicate (n - 1) SEPARATOR_CHAR @ [CHR 0x0A]"
  by (induction "n - 1" arbitrary: n) (simp_all add: separator_def)

lemma no_adjacent_stars:
  assumes "stars_follow_rows R ls" "star_line \<notin> R" "Suc i < length ls"
  shows "\<not> (ls ! i = star_line \<and> ls ! Suc i = star_line)"
proof
  assume a: "ls ! i = star_line \<and> ls ! Suc i = star_line"
  from assms(1) have "\<forall>j<length ls. ls ! j = star_line \<longrightarrow> 0 < j \<and> ls ! (j - 1) \<in> R"
    by (simp add: stars_follow_rows_def)
  from this [rule_format, of "Suc i"] assms(3) a have "ls ! i \<in> R" by simp
  with a assms(2) show False by simp
qed

lemma st_example_gate: "outv_check st_example 0 \<noteq> 0" "out_fh st_example = Some Stdout"
  by (simp_all add: outv_check_def st_example_def)

lemma hex_digit_in: "d < 16 \<Longrightarrow> hex_digit d \<in> set ''0123456789abcdef''"
  unfolding hex_digit_def by (intro nth_mem) simp

lemma set_hex_digits: "set (hex_digits n) \<subseteq> set ''0123456789abcdef''"
proof (induction n rule: hex_digits.induct)
  case (1 n)
  show ?case
  proof (cases "n < 16")
    case True
    then show ?thesis using hex_digit_in [of n] by (subst hex_digits.simps) simp
  next
    case False
    have "n mod 16 < 16" by simp
    from hex_digit_in [OF this] 1 [OF False] False show ?thesis
      by (subst hex_digits.simps) simp
  qed
qed

lemma set_fmt_08lx: "set (fmt_08lx x) \<subseteq> set ''0123456789abcdef''"
  using set_hex_digits [of "unat x"] by (auto simp: fmt_08lx_def pad_left_def)

lemma set_fmt_02x: "set (fmt_02x b) \<subseteq> set ''0123456789abcdef''"
  using set_hex_digits [of "unat b"] by (auto simp: fmt_02x_def pad_left_def)

lemma dump_rows_shape:
  assumes "l \<in> set (dump_rows addr len offset)" "len \<le> length addr"
  shows "\<exists>j. 16 * j < len \<and>
           l = row_shape (of_nat (16 * j) + offset) (take 16 (drop (16 * j) (take len addr)))"
proof -
  from assms(1) obtain j where j: "j < (len + 15) div 16" and l: "l = row_at addr len offset (16 * j)"
    by (auto simp: dump_rows_def)
  from j have lt: "16 * j < len" by simp
  with assms(2) have "take 16 (drop (16 * j) (take len addr)) \<noteq> []" by simp
  then have "l = row_shape (of_nat (16 * j) + offset) (take 16 (drop (16 * j) (take len addr)))"
    unfolding l row_at_def by (rule row_line_shape)
  with lt show ?thesis by blast
qed

lemma ascii_A: "ascii_text [0x41, 0x42] = ''AB''"
  by (simp add: ascii_text_def out_get_printable_ascii_def isprint_def char_of_def bit_Suc_0_iff)

lemma hex_A: "hex_text [0x41, 0x42] = ''41 42 ''"
  by (simp add: hex_text_def hex_tokens_def fmt_02x_eq hex_digit_def)

lemma row_A_wide: "row_line 0x100000000 [0x41, 0x42] =
    ''100000000  41 42                                             |AB              |'' @ [CHR 0x0A]"
  unfolding row_line_def ascii_A hex_A
  by (simp add: fmt_08lx_def hex_digits.simps hex_digit_def pad_left_def
        pad_right_def HEXDUMP_ROW_HEX_LEN_def HEXDUMP_ROW_WIDTH_def replicate_numeral)

lemma row_A: "row_line 0x100 [0x41, 0x42] =
    ''00000100  41 42                                             |AB              |'' @ [CHR 0x0A]"
  unfolding row_line_def ascii_A hex_A
  by (simp add: fmt_08lx_def hex_digits.simps hex_digit_def pad_left_def
        pad_right_def HEXDUMP_ROW_HEX_LEN_def HEXDUMP_ROW_WIDTH_def replicate_numeral)

lemma outv_hexdump_closed:
  "outv_check st vlevel = 0 \<or> len = 0 \<Longrightarrow> outv_hexdump st vlevel addr len offset sep = Inr st"
  by (auto simp: outv_hexdump_def outv_hexdump_io_def)





lemma load64_store64: "load64 (store64 h p v) p = v"
proof (rule bit_word_eqI)
  fix n assume n: "n < LENGTH(64)"
  then consider "n < 8" | "8 \<le> n \<and> n < 16" | "16 \<le> n \<and> n < 24" | "24 \<le> n \<and> n < 32"
    | "32 \<le> n \<and> n < 40" | "40 \<le> n \<and> n < 48" | "48 \<le> n \<and> n < 56" | "56 \<le> n \<and> n < 64"
    by fastforce
  then show "bit (load64 (store64 h p v) p) n = bit v n"
    by cases (auto simp: load64_def store64_def bit_simps)
qed

lemma store64_frame: "a < p \<or> p + 8 \<le> a \<Longrightarrow> store64 h p v a = h a"
  by (auto simp: store64_def)

lemma length_dec_digits: "0 < k \<Longrightarrow> n < 10 ^ k \<Longrightarrow> length (dec_digits n) \<le> k"
proof (induction n arbitrary: k rule: dec_digits.induct)
  case (1 n)
  show ?case
  proof (cases "n < 10")
    case True
    with 1 show ?thesis by (subst dec_digits.simps) simp
  next
    case False
    with "1.prems" have k: "1 < k" by (cases "k = 1") auto
    then obtain k' where k': "k = Suc k'" "0 < k'" by (cases k) auto
    with "1.prems" have "n div 10 < 10 ^ k'"
      by (simp add: less_mult_imp_div_less mult.commute)
    with 1(1) [OF False k'(2)] have "length (dec_digits (n div 10)) \<le> k'" by simp
    with False k' show ?thesis by (subst dec_digits.simps) simp
  qed
qed

lemma dec_digit_in: "d < 10 \<Longrightarrow> dec_digit d \<in> set ''0123456789''"
  unfolding dec_digit_def by (intro nth_mem) simp

lemma set_dec_digits: "set (dec_digits n) \<subseteq> set ''0123456789''"
proof (induction n rule: dec_digits.induct)
  case (1 n)
  show ?case
  proof (cases "n < 10")
    case True
    then show ?thesis using dec_digit_in [of n] by (subst dec_digits.simps) simp
  next
    case False
    have "n mod 10 < 10" by simp
    from dec_digit_in [OF this] 1 [OF False] False show ?thesis
      by (subst dec_digits.simps) simp
  qed
qed

lemma NUL_notin_dec_digits: "NUL \<notin> set (dec_digits n)"
  using set_dec_digits [of n] by (auto simp: NUL_def)

lemma NUL_notin_hex_digits: "NUL \<notin> set (hex_digits n)"
  using set_hex_digits [of n] by (auto simp: NUL_def)

lemma snprintf_buff_id:
  assumes "length t < STR_MAX" "NUL \<notin> set t"
  shows "snprintf_buff t = t"
proof -
  have "take (STR_MAX - 1) t = t" using assms(1) by simp
  then have "fst (snprintf (replicate STR_MAX NUL) 0 STR_MAX t) =
      t @ NUL # drop (length t + 1) (replicate STR_MAX NUL)"
    by (simp add: snprintf_def poke_def STR_MAX_def)
  then show ?thesis using assms(2) by (simp add: snprintf_buff_def c_str_holds)
qed

lemma length_fmt_08x: "length (fmt_08x w) = 8"
proof -
  have "unat w < 2 ^ 32" using unsigned_less [of w] by simp
  then have "unat w < 16 ^ 8" by simp
  then have "length (hex_digits (unat w)) \<le> 8" by (intro length_hex_digits) simp_all
  then show ?thesis by (simp add: fmt_08x_def pad_left_def)
qed

lemma NUL_notin_fmt_08x: "NUL \<notin> set (fmt_08x w)"
  using NUL_notin_hex_digits [of "unat w"] by (auto simp: fmt_08x_def pad_left_def NUL_def)

lemmas size_eval =
  out_get_size_str_def double_of_u64_def size_loop.simps double_ge_1024_def double_div_1024_def
  nunits_def units_def fmt_1f_def round_half_even_def dec_digits.simps dec_digit_def
  snprintf_buff_def snprintf_def poke_def c_str_def STR_MAX_def NUL_def fmt_ld_def fmt_lu_def
  Let_def

lemma size_examples:
  "out_get_size_str 1023 1 = ''1023''"
  "out_get_size_str 1024 1 = ''1.0K''"
  "out_get_size_str 1536 1 = ''1.5K''"
  "out_get_size_str 1536 2 = ''1.5K [1536]''"
  by (simp_all add: size_eval)

lemma size_powers:
  "out_get_size_str 1 1 = ''1''"
  "out_get_size_str 1024 1 = ''1.0K''"
  "out_get_size_str 1048576 1 = ''1.0M''"
  "out_get_size_str 1073741824 1 = ''1.0G''"
  "out_get_size_str 1099511627776 1 = ''1.0T''"
  by (simp_all add: size_eval)

text \<open>A size of \<open>2^50\<close> takes the NUL that ends the table as its unit.\<close>

lemma size_large:
  "out_get_size_str 1125899906842624 1 = ''1.0''"
  by (simp add: size_eval)

lemma size_huge:
  "out_get_size_str 0x1000000000000000 1 = ''1152921504606846976''"
  by (simp add: size_eval nbits.simps)

lemma size_bytes_neg:
  "out_get_size_str 0x8000000000000000 0 = ''-9223372036854775808''"
  by (simp add: size_eval)

lemma fmt_lu_big: "fmt_lu 0x8000000000000000 = ''9223372036854775808''"
  by (simp add: size_eval)

lemma spec_huge: "spec_size_str 0x1000000000000000 1 = ''1048576.0T''"
  by (simp add: spec_size_str_def spec_size_loop.simps spec_units_def size_eval)

lemma sint_small: 
  fixes w :: u64
  assumes "unat w < 2 ^ 63"
  shows "sint w = int (unat w)"
proof -
  have "int (unat w) < int (2 ^ 63)" using assms by (rule iffD2 [OF of_nat_less_iff])
  then have u: "uint w < 2 ^ 63" by simp
  have "- (2 ^ 63) \<le> uint w" by (rule order_trans [of _ 0]) simp_all
  with u have "signed_take_bit 63 (uint w) = uint w"
    by (intro signed_take_bit_int_eq_self) simp_all
  then show ?thesis by (simp add: sint_uint)
qed

lemma fmt_ld_small: "unat w < 2 ^ 63 \<Longrightarrow> fmt_ld w = dec_digits (unat w)"
  by (simp add: fmt_ld_def sint_small del: of_nat_unat)

lemma size_bytes_small:
  assumes "unat sz < 2 ^ 63"
  shows "out_get_size_str sz 0 = dec_digits (unat sz)"
proof -
  have "unat sz < 10 ^ 20" using assms by simp
  then have "length (dec_digits (unat sz)) \<le> 20" by (intro length_dec_digits) simp_all
  then have "snprintf_buff (dec_digits (unat sz)) = dec_digits (unat sz)"
    by (intro snprintf_buff_id) (simp_all add: STR_MAX_def NUL_notin_dec_digits)
  then show ?thesis by (simp add: out_get_size_str_def fmt_ld_small [OF assms])
qed

lemma double_of_u64_small: "unat sz < 2 ^ 53 \<Longrightarrow> double_of_u64 sz = (unat sz, 0)"
  by (simp add: double_of_u64_def Let_def)

lemma size_loop_eq_spec:
  assumes "j \<le> 4" "m < 1024 ^ 5"
  shows "size_loop (m, 10 * j) (m, 10 * j) (int j - 1) = spec_size_loop (m, 10 * j) (int j - 1) \<and>
         snd (spec_size_loop (m, 10 * j) (int j - 1)) \<le> 3 \<and>
         int j - 1 \<le> snd (spec_size_loop (m, 10 * j) (int j - 1)) \<and>
         fst (fst (spec_size_loop (m, 10 * j) (int j - 1))) = m"
  using assms
proof (induction "4 - j" arbitrary: j)
  case 0
  then have j: "j = 4" by simp
  have "\<not> double_ge_1024 (m, 40)"
    using 0(3) by (simp add: double_ge_1024_def)
  then show ?case unfolding j
    by (subst size_loop.simps, subst spec_size_loop.simps, subst spec_size_loop.simps,
        subst spec_size_loop.simps, subst spec_size_loop.simps) simp
next
  case (Suc k)
  then have j: "j < 4" "k = 4 - Suc j" "Suc j \<le> 4" by simp_all
  have n: "int j - 1 < nunits" "int j - 1 + 1 < int (length spec_units)"
    "int (Suc j) - 1 < int (length spec_units)"
    using j by (simp_all add: nunits_def units_def spec_units_def)
  have d: "double_div_1024 (m, 10 * j) = (m, 10 * Suc j)" by (simp add: double_div_1024_def)
  have i: "int j - 1 + 1 = int (Suc j) - 1" by simp
  note IH = Suc.hyps(1) [OF j(2) j(3) Suc.prems(2)]
  show ?case
  proof (cases "double_ge_1024 (m, 10 * j)")
    case True
    have a: "size_loop (m, 10 * j) (m, 10 * j) (int j - 1) =
             size_loop (m, 10 * Suc j) (m, 10 * Suc j) (int (Suc j) - 1)"
      by (subst size_loop.simps) (simp only: True n d i if_True simp_thms)
    have b: "spec_size_loop (m, 10 * j) (int j - 1) = spec_size_loop (m, 10 * Suc j) (int (Suc j) - 1)"
      by (subst spec_size_loop.simps) (simp only: True n d i if_True simp_thms)
    from IH show ?thesis unfolding a b by simp
  next
    case False
    have a: "size_loop (m, 10 * j) (m, 10 * j) (int j - 1) = ((m, 10 * j), int j - 1)"
      by (subst size_loop.simps) (simp only: False if_False simp_thms)
    have b: "spec_size_loop (m, 10 * j) (int j - 1) = ((m, 10 * j), int j - 1)"
      by (subst spec_size_loop.simps) (simp only: False if_False simp_thms)
    show ?thesis unfolding a b using j(1) by simp
  qed
qed

lemma round_half_even_le: "0 < b \<Longrightarrow> round_half_even a b \<le> a div b + 1"
  by (simp add: round_half_even_def Let_def)

lemma NUL_notin_fmt_1f: "NUL \<notin> set (fmt_1f d)"
proof -
  have "dec_digit (round_half_even (10 * fst d) (2 ^ snd d) mod 10) \<in> set ''0123456789''"
    by (rule dec_digit_in) simp
  then have "dec_digit (round_half_even (10 * fst d) (2 ^ snd d) mod 10) \<noteq> NUL"
    by (auto simp: NUL_def)
  then show ?thesis
    using NUL_notin_dec_digits by (simp add: fmt_1f_def Let_def, simp add: NUL_def)
qed

lemma length_fmt_1f:
  assumes "fst d < 10 ^ 20"
  shows "length (fmt_1f d) \<le> 22"
proof -
  let ?t = "round_half_even (10 * fst d) (2 ^ snd d)"
  have "?t \<le> (10 * fst d) div 2 ^ snd d + 1" by (rule round_half_even_le) simp
  also have "\<dots> \<le> 10 * fst d + 1" by (simp add: div_le_dividend)
  finally have "?t div 10 \<le> fst d" by simp
  with assms have "?t div 10 < 10 ^ 20" by simp
  then have "length (dec_digits (?t div 10)) \<le> 20" by (intro length_dec_digits) simp_all
  then show ?thesis by (simp add: fmt_1f_def Let_def)
qed

lemma snprintf_buff_fmt_ld:
  assumes "unat sz < 2 ^ 63"
  shows "snprintf_buff (fmt_ld sz) = dec_digits (unat sz)"
proof -
  have "unat sz < 10 ^ 20" using assms by simp
  then have "length (dec_digits (unat sz)) \<le> 20" by (intro length_dec_digits) simp_all
  then have "snprintf_buff (dec_digits (unat sz)) = dec_digits (unat sz)"
    by (intro snprintf_buff_id) (simp_all add: STR_MAX_def NUL_notin_dec_digits)
  then show ?thesis by (simp add: fmt_ld_small [OF assms])
qed

lemma length_fmt_lu: "length (fmt_lu sz) \<le> 20"
proof -
  have "unat sz < 2 ^ 64" using unsigned_less [of sz] by simp
  then have "unat sz < 10 ^ 20" by simp
  then show ?thesis unfolding fmt_lu_def by (intro length_dec_digits) simp_all
qed

lemma size_small_agrees:
  assumes "unat sz < 2 ^ 50" "human \<noteq> 0"
  shows "out_get_size_str sz human = spec_size_str sz human"
proof -
  let ?m = "unat sz"
  have m53: "?m < 2 ^ 53" and m63: "?m < 2 ^ 63" and m5: "?m < 1024 ^ 5" and m20: "?m < 10 ^ 20"
    using assms(1) by simp_all
  obtain v u where r: "spec_size_loop (?m, 0) (- 1) = (v, u)"
    by (cases "spec_size_loop (?m, 0) (- 1)")
  from size_loop_eq_spec [of 0 ?m] m5
  have c: "size_loop (?m, 0) (?m, 0) (- 1) = (v, u)" and u3: "u \<le> 3" and u1: "- 1 \<le> u"
    and fv: "fst v = ?m"
    by (simp_all add: r)
  show ?thesis
  proof (cases "0 \<le> u")
    case False
    then show ?thesis
      using assms(2)
      by (simp add: out_get_size_str_def spec_size_str_def double_of_u64_small [OF m53] r c
          snprintf_buff_fmt_ld [OF m63])
  next
    case True
    with u3 have "nat u \<in> {0, 1, 2, 3}" by auto
    then have un: "units ! nat u = spec_units ! nat u" and nn: "spec_units ! nat u \<noteq> NUL"
      by (auto simp: units_def spec_units_def NUL_def)
    have lf: "length (fmt_1f v) \<le> 22" using fv m20 by (intro length_fmt_1f) simp
    have t1: "snprintf_buff (fmt_1f v @ [spec_units ! nat u]) = fmt_1f v @ [spec_units ! nat u]"
      using lf nn by (intro snprintf_buff_id) (simp_all add: STR_MAX_def NUL_notin_fmt_1f)
    have t2: "snprintf_buff (fmt_1f v @ [spec_units ! nat u] @ '' ['' @ fmt_lu sz @ '']'') =
        fmt_1f v @ [spec_units ! nat u] @ '' ['' @ fmt_lu sz @ '']''"
      using lf nn length_fmt_lu [of sz] NUL_notin_dec_digits [of "unat sz"]
      by (intro snprintf_buff_id) (simp_all add: STR_MAX_def NUL_notin_fmt_1f fmt_lu_def, simp_all add: NUL_def)
    have iu: "u < nunits" using u3 by (simp add: nunits_def units_def)
    show ?thesis
      using assms(2) True iu
      by (simp add: out_get_size_str_def spec_size_str_def double_of_u64_small [OF m53] r c
          un t1 t2 [unfolded fmt_lu_def] fmt_lu_def del: append.simps)
  qed
qed

lemma nbits_le: "n < 2 ^ k \<Longrightarrow> nbits n \<le> k"
proof (induction k arbitrary: n)
  case 0
  then show ?case by (subst nbits.simps) simp
next
  case (Suc k)
  then have "n div 2 < 2 ^ k" by simp
  from Suc.IH [OF this] show ?case by (subst nbits.simps) simp
qed

lemma round_half_even_ge: "a div b \<le> round_half_even a b"
  by (simp add: round_half_even_def Let_def)

lemma double_of_u64_big:
  assumes "2 ^ 60 \<le> unat sz"
  shows "snd (double_of_u64 sz) = 0 \<and> 2 ^ 60 \<le> fst (double_of_u64 sz)"
proof -
  let ?n = "unat sz"
  define e where "e = nbits ?n - 53"
  have "?n < 2 ^ 64" using unsigned_less [of sz] by simp
  then have "nbits ?n \<le> 64" by (rule nbits_le)
  then have e: "e \<le> 60" by (simp add: e_def)
  then have p: "(2::nat) ^ 60 = 2 ^ (60 - e) * 2 ^ e" by (simp add: power_add [symmetric])
  have "2 ^ (60 - e) \<le> ?n div 2 ^ e"
    using assms unfolding p by (simp add: less_eq_div_iff_mult_less_eq)
  also have "\<dots> \<le> round_half_even ?n (2 ^ e)" by (rule round_half_even_ge)
  finally have "2 ^ (60 - e) * 2 ^ e \<le> round_half_even ?n (2 ^ e) * 2 ^ e" by simp
  then have "2 ^ 60 \<le> round_half_even ?n (2 ^ e) * 2 ^ e" unfolding p [symmetric] .
  moreover have "\<not> ?n < 2 ^ 53" using assms by simp
  ultimately show ?thesis by (simp add: double_of_u64_def Let_def e_def)
qed

lemma size_huge_decimal:
  assumes "2 ^ 60 \<le> unat sz" "unat sz < 2 ^ 63" "human \<noteq> 0"
  shows "out_get_size_str sz human = dec_digits (unat sz)"
proof -
  obtain M where d: "double_of_u64 sz = (M, 0)" and M: "2 ^ 60 \<le> M"
    using double_of_u64_big [OF assms(1)] by (cases "double_of_u64 sz") auto
  have "size_loop (M, 0) (M, 0) (- 1) = ((M, 60), 5)"
    using M by (simp add: size_loop.simps double_ge_1024_def double_div_1024_def nunits_def units_def)
  then show ?thesis
    using assms(3) by (simp add: out_get_size_str_def d nunits_def units_def snprintf_buff_fmt_ld [OF assms(2)])
qed

text \<open>
  On a stream where the writes succeed: nothing is written when the gate is
  closed or \<open>len\<close> is 0; otherwise the rows are followed, when \<open>sep\<close> is not 0,
  by \<open>N - 1\<close> writes of \<open>-\<close> and a newline, \<open>N\<close> the byte count of the last row.
\<close>

lemma separator_after_rows:
  "(outv_check st vlevel = 0 \<or> len = 0 \<longrightarrow>
      outv_hexdump st vlevel addr len offset sep = Inr st) \<and>
   (outv_check st vlevel \<noteq> 0 \<and> out_fh st = Some f \<and> 0 < len \<and> len \<le> length addr \<longrightarrow>
      outv_hexdump st vlevel addr len offset sep =
        Inr (st\<lparr>written := (written st)(f := written st f @ hexdump_lines addr len offset @
               (if sep \<noteq> 0
                then replicate (length (last (hexdump_lines addr len offset)) - 1) [SEPARATOR_CHAR] @
                     [[CHR 0x0A]]
                else []))\<rparr>) \<and>
      hexdump_lines addr len offset \<noteq> [] \<and>
      last (hexdump_lines addr len offset) = row_at addr len offset (16 * ((len - 1) div 16)) \<and>
      (\<forall>row. length row \<le> 16 \<longrightarrow>
         length (row_line (of_nat (16 * ((len - 1) div 16)) + offset) row) =
         length (last (hexdump_lines addr len offset))) \<and>
      (unat (of_nat (16 * ((len - 1) div 16)) + offset :: u64) < 2 ^ 32 \<longrightarrow>
         length (last (hexdump_lines addr len offset)) = 79) \<and>
      concat (replicate (length (last (hexdump_lines addr len offset)) - 1) [SEPARATOR_CHAR] @
              [[CHR 0x0A]]) =
        replicate (length (last (hexdump_lines addr len offset)) - 1) CHR ''-'' @ [CHR 0x0A])"
proof (intro conjI impI)
  assume "outv_check st vlevel = 0 \<or> len = 0"
  then show "outv_hexdump st vlevel addr len offset sep = Inr st"
    by (rule outv_hexdump_closed)
next
  assume a: "outv_check st vlevel \<noteq> 0 \<and> out_fh st = Some f \<and> 0 < len \<and> len \<le> length addr"
  then have g: "outv_check st vlevel \<noteq> 0" "out_fh st = Some f" "0 < len" "len \<le> length addr"
    by simp_all
  let ?ls = "hexdump_lines addr len offset"
  let ?x = "of_nat (16 * ((len - 1) div 16)) + offset :: u64"
  note fl = hexdump_lines_first_last(1-3) [OF g(3,4), of offset]
  show "outv_hexdump st vlevel addr len offset sep =
        Inr (st\<lparr>written := (written st)(f := written st f @ ?ls @
               (if sep \<noteq> 0 then replicate (length (last ?ls) - 1) [SEPARATOR_CHAR] @ [[CHR 0x0A]]
                else []))\<rparr>)"
    using outv_hexdump_eq [OF g, of offset sep] by (simp add: separator_def)
  show "?ls \<noteq> []" by (rule fl(1))
  show "last ?ls = row_at addr len offset (16 * ((len - 1) div 16))" by (rule fl(3))
  have w: "length (last ?ls) = length (fmt_08lx ?x) + 71"
    unfolding fl(3) row_at_def by (rule length_row_line_16) simp
  show "\<forall>row. length row \<le> 16 \<longrightarrow> length (row_line ?x row) = length (last ?ls)"
    using w by (simp add: length_row_line_16)
  show "length (last ?ls) = 79" if "unat ?x < 2 ^ 32"
    using w length_fmt_08lx_small [OF that] by simp
  show "concat (replicate (length (last ?ls) - 1) [SEPARATOR_CHAR] @ [[CHR 0x0A]]) =
        replicate (length (last ?ls) - 1) CHR ''-'' @ [CHR 0x0A]"
    using concat_separator [of "length (last ?ls)"] by (simp add: separator_def SEPARATOR_CHAR_def)
qed

section \<open>The claims\<close>

text \<open>
  Claim C1. For a buffer of \<open>16 * k\<close> equal bytes, \<open>k \<ge> 3\<close>, with the gate open,
  the dump is exactly three lines: the first row in full, one \<open>*\<close> line, and the
  last row in full, at offset \<open>16 * (k - 1)\<close>; the rows in between write nothing.
  Only the separator of \<open>sep\<close>, when asked for, comes after them.
\<close>

theorem hexdump_identical_rows:
  assumes "outv_check st vlevel \<noteq> 0" and "out_fh st = Some f" and "3 \<le> k"
  shows "outv_hexdump st vlevel (replicate (16 * k) b) (16 * k) offset sep =
           Inr (st\<lparr>written := (written st)(f := written st f @
                  [row_line offset (replicate 16 b),
                   star_line,
                   row_line (of_nat (16 * (k - 1)) + offset) (replicate 16 b)] @
                  (if sep \<noteq> 0
                   then separator (length (row_line (of_nat (16 * (k - 1)) + offset) (replicate 16 b)))
                   else []))\<rparr>)"
proof -
  have l: "0 < 16 * k" "16 * k \<le> length (replicate (16 * k) b)" using assms(3) by simp_all
  show ?thesis
    unfolding outv_hexdump_eq [OF assms(1,2) l] hexdump_lines_repeated [OF assms(3)] by simp
qed

theorem hexdump_identical_rows_witness:
  "outv_hexdump st_example 0 (replicate 48 0xff) 48 0 0 =
     Inr (st_example\<lparr>written := (written st_example)(Stdout :=
       [''00000000  ff ff ff ff ff ff ff ff  ff ff ff ff ff ff ff ff  |................|'' @ [CHR 0x0A],
        ''*'' @ [CHR 0x0A],
        ''00000020  ff ff ff ff ff ff ff ff  ff ff ff ff ff ff ff ff  |................|'' @ [CHR 0x0A]])\<rparr>)"
proof -
  have k: "(3::nat) \<le> 3" by simp
  have a: "ascii_text (replicate 16 (0xff::u8)) = ''................''"
    by (simp add: ascii_text_def out_get_printable_ascii_def isprint_def char_of_def bit_Suc_0_iff
        replicate_numeral)
  have h: "hex_text (replicate 16 (0xff::u8)) = ''ff ff ff ff ff ff ff ff  ff ff ff ff ff ff ff ff ''"
    by (simp add: hex_text_def hex_tokens_def fmt_02x_eq hex_digit_def replicate_numeral)
  have r0: "row_line 0 (replicate 16 (0xff::u8)) =
      ''00000000  ff ff ff ff ff ff ff ff  ff ff ff ff ff ff ff ff  |................|'' @ [CHR 0x0A]"
    unfolding row_line_def a h
    by (simp add: fmt_08lx_def hex_digits.simps hex_digit_def pad_left_def
        pad_right_def HEXDUMP_ROW_HEX_LEN_def HEXDUMP_ROW_WIDTH_def replicate_numeral)
  have r2: "row_line 32 (replicate 16 (0xff::u8)) =
      ''00000020  ff ff ff ff ff ff ff ff  ff ff ff ff ff ff ff ff  |................|'' @ [CHR 0x0A]"
    unfolding row_line_def a h
    by (simp add: fmt_08lx_def hex_digits.simps hex_digit_def pad_left_def
        pad_right_def HEXDUMP_ROW_HEX_LEN_def HEXDUMP_ROW_WIDTH_def replicate_numeral)
  from hexdump_identical_rows [OF st_example_gate k, of "0xff" 0 0]
  show ?thesis by (simp add: r0 r2 star_line_def st_example_def)
qed

text \<open>
  Claim C2. With the gate open, a stream set and a buffer of \<open>len > 0\<close> bytes, the
  dump is never empty, its first line is the formatted first row and its last line
  is the formatted last row, the one that starts at byte \<open>16 * ((len - 1) div 16)\<close>
  and is short when \<open>len\<close> is not a multiple of 16. Neither is the \<open>*\<close> marker,
  whatever the bytes of the rows before are. The separator, when asked for, comes
  after the dump.
\<close>

theorem hexdump_first_and_last_row_printed:
  assumes "outv_check st vlevel \<noteq> 0" and "out_fh st = Some f"
    and "0 < len" and "len \<le> length addr"
  shows "outv_hexdump st vlevel addr len offset sep =
           Inr (st\<lparr>written := (written st)(f := written st f @ hexdump_lines addr len offset @
                  (if sep \<noteq> 0 then separator (length (last (hexdump_lines addr len offset))) else []))\<rparr>) \<and>
         hexdump_lines addr len offset \<noteq> [] \<and>
         hd (hexdump_lines addr len offset) = row_at addr len offset 0 \<and>
         last (hexdump_lines addr len offset) = row_at addr len offset (16 * ((len - 1) div 16)) \<and>
         row_at addr len offset 0 \<noteq> star_line \<and>
         row_at addr len offset (16 * ((len - 1) div 16)) \<noteq> star_line"
  using outv_hexdump_eq [OF assms] hexdump_lines_first_last(1-3) [OF assms(3,4)]
  by (simp add: row_at_def row_line_not_star)

theorem hexdump_first_and_last_row_printed_witness:
  "outv_check st_example 0 \<noteq> 0 \<and> out_fh st_example = Some Stdout \<and>
   (0::nat) < 17 \<and> 17 \<le> length (replicate 17 (0x41::u8)) \<and>
   hexdump_lines (replicate 17 0x41) 17 0x100 \<noteq> [] \<and>
   hd (hexdump_lines (replicate 17 0x41) 17 0x100) = row_at (replicate 17 0x41) 17 0x100 0 \<and>
   last (hexdump_lines (replicate 17 0x41) 17 0x100) = row_at (replicate 17 0x41) 17 0x100 16 \<and>
   row_at (replicate 17 0x41) 17 0x100 16 \<noteq> star_line"
proof -
  have g: "outv_check st_example 0 \<noteq> 0" and s: "out_fh st_example = Some Stdout"
    by (simp_all add: outv_check_def st_example_def)
  have l: "(0::nat) < 17" and b: "17 \<le> length (replicate 17 (0x41::u8))" by simp_all
  from hexdump_first_and_last_row_printed [OF g s l b, of "0x100" 0] g s
  show ?thesis by simp
qed

text \<open>
  Claim C3, amended. Every line of the dump is the \<open>*\<close> marker or a formatted row
  of this shape: the offset of the row in lowercase hex, zero-padded to 8 digits
  and longer when the offset is \<open>2^32\<close> or more, two spaces, the hex column (tokens
  of two lowercase hex digits, one space between them and one more after the 8th)
  padded to 49 characters, one space, \<open>|\<close>, the ASCII column (\<open>.\<close> for a byte
  that does not print) padded to 16, \<open>|\<close> and a newline: 79 characters when the
  offset is below \<open>2^32\<close>.
\<close>

theorem hexdump_row_shape:
  assumes "outv_check st vlevel \<noteq> 0" and "out_fh st = Some f"
    and "0 < len" and "len \<le> length addr"
  shows "outv_hexdump st vlevel addr len offset sep =
           Inr (st\<lparr>written := (written st)(f := written st f @ hexdump_lines addr len offset @
                  (if sep \<noteq> 0 then separator (length (last (hexdump_lines addr len offset))) else []))\<rparr>) \<and>
         (\<forall>l \<in> set (hexdump_lines addr len offset).
            l = star_line \<or>
            (\<exists>j. 16 * j < len \<and>
               l = row_shape (of_nat (16 * j) + offset) (take 16 (drop (16 * j) (take len addr))))) \<and>
         (\<forall>x row. row \<noteq> [] \<and> length row \<le> 16 \<longrightarrow>
            row_shape x row =
              fmt_08lx x @ ''  '' @ pad_right 49 (hex_column row) @ '' '' @ ''|'' @
              pad_right 16 (map (\<lambda>b. out_get_printable_ascii (char_of (unat b))) row) @ ''|'' @ [CHR 0x0A] \<and>
            length (pad_right 49 (hex_column row)) = 49 \<and>
            length (pad_right 16 (map (\<lambda>b. out_get_printable_ascii (char_of (unat b))) row)) = 16 \<and>
            (\<forall>b. length (fmt_02x b) = 2 \<and> set (fmt_02x b) \<subseteq> set ''0123456789abcdef'') \<and>
            set (fmt_08lx x) \<subseteq> set ''0123456789abcdef'' \<and>
            8 \<le> length (fmt_08lx x) \<and>
            (unat x < 2 ^ 32 \<longrightarrow> length (fmt_08lx x) = 8 \<and> length (row_shape x row) = 79))"
proof -
  have a: "\<forall>l \<in> set (hexdump_lines addr len offset).
            l = star_line \<or>
            (\<exists>j. 16 * j < len \<and>
               l = row_shape (of_nat (16 * j) + offset) (take 16 (drop (16 * j) (take len addr))))"
    using hexdump_lines_good(1) [OF assms(4), of offset] dump_rows_shape [OF _ assms(4), of _ offset]
    by blast
  have b: "row_shape x row =
              fmt_08lx x @ ''  '' @ pad_right 49 (hex_column row) @ '' '' @ ''|'' @
              pad_right 16 (map (\<lambda>b. out_get_printable_ascii (char_of (unat b))) row) @ ''|'' @ [CHR 0x0A] \<and>
            length (pad_right 49 (hex_column row)) = 49 \<and>
            length (pad_right 16 (map (\<lambda>b. out_get_printable_ascii (char_of (unat b))) row)) = 16 \<and>
            (\<forall>b. length (fmt_02x b) = 2 \<and> set (fmt_02x b) \<subseteq> set ''0123456789abcdef'') \<and>
            set (fmt_08lx x) \<subseteq> set ''0123456789abcdef'' \<and>
            8 \<le> length (fmt_08lx x) \<and>
            (unat x < 2 ^ 32 \<longrightarrow> length (fmt_08lx x) = 8 \<and> length (row_shape x row) = 79)"
    if r: "row \<noteq> [] \<and> length row \<le> 16" for x row
  proof -
    from r have r1: "row \<noteq> []" and r2: "length row \<le> 16" by simp_all
    have c49: "length (pad_right 49 (hex_column row)) = 49"
      using length_hex_column [OF r1 r2] by (simp add: length_pad_right)
    have c16: "length (pad_right 16 (map (\<lambda>b. out_get_printable_ascii (char_of (unat b))) row)) = 16"
      using r2 by (simp add: length_pad_right)
    have l79: "length (row_shape x row) = 79" if "unat x < 2 ^ 32"
      using length_row_line_16 [OF r2, of x] length_fmt_08lx_small [OF that] row_line_shape [OF r1, of x]
      by simp
    show ?thesis
      using c49 c16 l79 set_fmt_02x set_fmt_08lx [of x] length_fmt_08lx_ge [of x] length_fmt_08lx_small [of x]
      by (simp add: row_shape_def ascii_text_def)
  qed
  show ?thesis using outv_hexdump_eq [OF assms] a b by blast
qed

theorem hexdump_row_shape_witness:
  "outv_hexdump st_example 0 [0x41, 0x42] 2 0x100 0 =
     Inr (st_example\<lparr>written := (written st_example)(Stdout :=
       [''00000100  41 42                                             |AB              |'' @ [CHR 0x0A]])\<rparr>) \<and>
   row_shape 0x100 [0x41, 0x42] =
     ''00000100  41 42                                             |AB              |'' @ [CHR 0x0A] \<and>
   length (fmt_08lx 0x100) = 8 \<and> length (row_shape 0x100 [0x41, 0x42]) = 79"
proof -
  have l: "(0::nat) < 2" "2 \<le> length [0x41::u8, 0x42]" by simp_all
  have s: "hexdump_lines [0x41, 0x42] 2 0x100 = [row_line 0x100 [0x41, 0x42]]"
    using hexdump_lines_single [OF l(1) _ l(2), of "0x100"] by (simp add: row_at_def)
  have r: "row_shape 0x100 [0x41, 0x42] = row_line 0x100 [0x41, 0x42]"
    by (rule row_line_shape [symmetric]) simp
  note t = hexdump_row_shape [OF st_example_gate l, of "0x100" 0]
  from t have A: "outv_hexdump st_example 0 [0x41, 0x42] 2 0x100 0 =
           Inr (st_example\<lparr>written := (written st_example)(Stdout := written st_example Stdout @
                  hexdump_lines [0x41, 0x42] 2 0x100 @
                  (if (0::int) \<noteq> 0 then separator (length (last (hexdump_lines [0x41, 0x42] 2 0x100))) else []))\<rparr>)"
    by (rule conjunct1)
  from t have B: "\<forall>x row. row \<noteq> [] \<and> length row \<le> 16 \<longrightarrow>
            row_shape x row =
              fmt_08lx x @ ''  '' @ pad_right 49 (hex_column row) @ '' '' @ ''|'' @
              pad_right 16 (map (\<lambda>b. out_get_printable_ascii (char_of (unat b))) row) @ ''|'' @ [CHR 0x0A] \<and>
            length (pad_right 49 (hex_column row)) = 49 \<and>
            length (pad_right 16 (map (\<lambda>b. out_get_printable_ascii (char_of (unat b))) row)) = 16 \<and>
            (\<forall>b. length (fmt_02x b) = 2 \<and> set (fmt_02x b) \<subseteq> set ''0123456789abcdef'') \<and>
            set (fmt_08lx x) \<subseteq> set ''0123456789abcdef'' \<and>
            8 \<le> length (fmt_08lx x) \<and>
            (unat x < 2 ^ 32 \<longrightarrow> length (fmt_08lx x) = 8 \<and> length (row_shape x row) = 79)"
    by (rule conjunct2 [THEN conjunct2])
  have C: "length (fmt_08lx 0x100) = 8 \<and> length (row_shape 0x100 [0x41, 0x42]) = 79"
    using B [THEN spec [of _ "0x100"], THEN spec [of _ "[0x41, 0x42]"]] by simp
  from A C show ?thesis by (simp add: s r row_A st_example_def)
qed

theorem hexdump_row_offset_counterexample:
  "outv_hexdump st_example 0 [0x41, 0x42] 2 0x100000000 0 =
     Inr (st_example\<lparr>written := (written st_example)(Stdout :=
       [''100000000  41 42                                             |AB              |'' @ [CHR 0x0A]])\<rparr>) \<and>
   length (''100000000  41 42                                             |AB              |'' @ [CHR 0x0A]) = 80 \<and>
   (''100000000  41 42                                             |AB              |'' @ [CHR 0x0A]) ! 8 = CHR ''0'' \<and>
   fmt_08lx 0x100000000 = ''100000000''"
proof -
  have l: "(0::nat) < 2" "2 \<le> length [0x41::u8, 0x42]" by simp_all
  have s: "hexdump_lines [0x41, 0x42] 2 0x100000000 = [row_line 0x100000000 [0x41, 0x42]]"
    using hexdump_lines_single [OF l(1) _ l(2), of "0x100000000"] by (simp add: row_at_def)
  have f: "fmt_08lx 0x100000000 = ''100000000''"
    by (simp add: fmt_08lx_def hex_digits.simps hex_digit_def pad_left_def)
  from outv_hexdump_eq [OF st_example_gate l, of "0x100000000" 0]
  show ?thesis by (simp add: s row_A_wide st_example_def f)
qed

text \<open>
  Claim C4. \<open>n\<close> is what the \<open>fprintf\<close> of the last row returned, and line 390
  tests it against 0 only. On a stream where that write fails \<open>fprintf\<close> returns
  \<open>-1\<close>: no row is printed and the loop ends with \<open>n = -1\<close>. With \<open>sep\<close> set the
  separator is entered all the same, and its count-down from \<open>-1\<close> does not come
  to 0: the call does not return. With \<open>sep\<close> 0 the same call returns, with
  nothing written. On a stream where the writes succeed the call with \<open>sep\<close> set
  writes the row of 79 bytes, 78 times \<open>-\<close>, and a newline. The same happens
  after a row that was printed: when the first row of an 18-byte dump is written
  and the write of the second fails, \<open>n\<close> is \<open>-1\<close> again and the call with \<open>sep\<close>
  set does not return.
\<close>

theorem hexdump_separator_failed_write:
  "hexdump_loop (\<lambda>out text. True) [0x41, 0x42] 0x100 2 0 0 0 0
     (replicate HEXDUMP_ROW_HEX_LEN NUL) (replicate HEXDUMP_ROW_ASCII_LEN NUL) [] = ([], - 1) \<and>
   outv_hexdump_io (\<lambda>out text. True) st_example 0 [0x41, 0x42] 2 0x100 1 = Inl NoReturn \<and>
   outv_hexdump_io (\<lambda>out text. True) st_example 0 [0x41, 0x42] 2 0x100 0 = Inr st_example \<and>
   outv_hexdump_io writes_succeed st_example 0 [0x41, 0x42] 2 0x100 1 =
     Inr (st_example\<lparr>written := (written st_example)(Stdout :=
            [''00000100  41 42                                             |AB              |'' @ [CHR 0x0A]] @
            replicate 78 ''-'' @ [[CHR 0x0A]])\<rparr>) \<and>
   hexdump_loop (\<lambda>out text. out \<noteq> []) (replicate 18 0x41) 0x100 18 0 0 0 0
     (replicate HEXDUMP_ROW_HEX_LEN NUL) (replicate HEXDUMP_ROW_ASCII_LEN NUL) [] =
     ([row_at (replicate 18 0x41) 18 0x100 0], - 1) \<and>
   outv_hexdump_io (\<lambda>out text. out \<noteq> []) st_example 0 (replicate 18 0x41) 18 0x100 1 =
     Inl NoReturn"
proof -
  let ?fails = "\<lambda>(out :: string list) (text :: string). True"
  let ?hb = "replicate HEXDUMP_ROW_HEX_LEN NUL" and ?ab = "replicate HEXDUMP_ROW_ASCII_LEN NUL"
  have lh: "length ?hb = 50" and la: "length ?ab = 17"
    by (simp_all add: HEXDUMP_ROW_HEX_LEN_def HEXDUMP_ROW_ASCII_LEN_def HEXDUMP_ROW_WIDTH_def)
  have l: "(0::nat) < 2" "0 + 2 \<le> length [0x41::u8, 0x42]" by simp_all
  have ne: "\<not> (16 < (2::nat) \<and> (0::nat) \<noteq> 0 \<and>
      take 16 (drop 0 [0x41::u8, 0x42]) = take 16 (drop 0 [0x41::u8, 0x42]))" by simp
  from loop_print_io [OF l le_refl lh la ne, of ?fails "0x100" 0 0 "[]"]
  have lp: "hexdump_loop ?fails [0x41, 0x42] 0x100 2 0 0 0 0 ?hb ?ab [] = ([], - 1)"
    by (auto simp: loop_stop_io fprintf_out_def)
  have nr: "sep_loop ?fails (- 1) [] = None"
    by (rule sep_loop_no_return) simp
  have g: "outv_check st_example 0 \<noteq> 0" "out_fh st_example = Some Stdout"
    using st_example_gate by simp_all
  have r1: "outv_hexdump_io ?fails st_example 0 [0x41, 0x42] 2 0x100 1 = Inl NoReturn"
    unfolding outv_hexdump_io_def lp using g by (simp add: nr)
  have r0: "outv_hexdump_io ?fails st_example 0 [0x41, 0x42] 2 0x100 0 = Inr st_example"
    unfolding outv_hexdump_io_def lp using g by simp
  have l2: "(0::nat) < 2" "2 \<le> length [0x41::u8, 0x42]" by simp_all
  have s: "hexdump_lines [0x41, 0x42] 2 0x100 = [row_line 0x100 [0x41, 0x42]]"
    using hexdump_lines_single [OF l2(1) _ l2(2), of "0x100"] by (simp add: row_at_def)
  from outv_hexdump_eq [OF g l2, of "0x100" 1]
  have ok: "outv_hexdump_io writes_succeed st_example 0 [0x41, 0x42] 2 0x100 1 =
     Inr (st_example\<lparr>written := (written st_example)(Stdout :=
            [''00000100  41 42                                             |AB              |'' @ [CHR 0x0A]] @
            replicate 78 ''-'' @ [[CHR 0x0A]])\<rparr>)"
    by (simp add: outv_hexdump_def s row_A separator_def SEPARATOR_CHAR_def st_example_def
        replicate_numeral)
  let ?late = "\<lambda>(out :: string list) (text :: string). out \<noteq> []"
  let ?D = "replicate 18 (0x41 :: u8)"
  let ?L = "row_at ?D 18 0x100 0"
  have d1: "(0::nat) < 18" "0 + 18 \<le> length ?D" by simp_all
  have ne1: "\<not> (16 < (18::nat) \<and> (0::nat) \<noteq> 0 \<and>
      take 16 (drop 0 ?D) = take 16 (drop 0 ?D))" by simp
  from loop_print_io [OF d1 le_refl lh la ne1, of ?late "0x100" 0 0 "[]"]
  obtain hb' ab' where l': "length hb' = 50" "length ab' = 17"
    and e1: "hexdump_loop ?late ?D 0x100 18 0 0 0 0 ?hb ?ab [] =
             hexdump_loop ?late ?D 0x100 2 16 0 0 (int (length ?L)) hb' ab' [?L]"
    by (auto simp: fprintf_out_def)
  have d2: "(0::nat) < 2" "16 + 2 \<le> length ?D" "(0::nat) \<le> 16" by simp_all
  have ne2: "\<not> (16 < (2::nat) \<and> (16::nat) \<noteq> 0 \<and>
      take 16 (drop 0 ?D) = take 16 (drop 16 ?D))" by simp
  from loop_print_io [OF d2 l' ne2, of ?late "0x100" 0 "int (length ?L)" "[?L]"]
  have e2: "hexdump_loop ?late ?D 0x100 2 16 0 0 (int (length ?L)) hb' ab' [?L] = ([?L], - 1)"
    by (auto simp: loop_stop_io fprintf_out_def)
  have lp2: "hexdump_loop ?late ?D 0x100 18 0 0 0 0 ?hb ?ab [] = ([?L], - 1)"
    unfolding e1 e2 ..
  have nr2: "sep_loop ?late (- 1) [?L] = None"
    by (rule sep_loop_no_return) simp
  have r2: "outv_hexdump_io ?late st_example 0 ?D 18 0x100 1 = Inl NoReturn"
    unfolding outv_hexdump_io_def lp2 using g by (simp add: nr2)
  from lp r1 r0 ok lp2 r2 show ?thesis by (intro conjI)
qed

text \<open>
  Claim C5, amended. Whatever the validator does to the memory and whatever its
  verdict, after \<open>out_get_checksum\<close> the 64-bit value at \<open>csump\<close> is the one from
  before the call, and the rest of the memory is as the validator left it. The
  string is \<open>0x<s> [OK]\<close> when the verdict is not 0 and
  \<open>0x<s> [wrong! should be: 0x<e>]\<close> otherwise, where \<open>s\<close> is the low 32 bits of
  the original value and \<open>e\<close> the low 32 bits of the value the validator left,
  each as exactly 8 lowercase hex digits.
\<close>

theorem checksum_restored:
  "load64 (snd (out_get_checksum V h addr len csump)) csump = load64 h csump \<and>
   (\<forall>a. a < csump \<or> csump + 8 \<le> a \<longrightarrow>
      snd (out_get_checksum V h addr len csump) a = snd (V h addr len csump) a) \<and>
   fst (out_get_checksum V h addr len csump) =
     (if fst (V h addr len csump) \<noteq> 0
      then ''0x'' @ fmt_08x (ucast (load64 h csump)) @ '' [OK]''
      else ''0x'' @ fmt_08x (ucast (load64 h csump)) @ '' [wrong! should be: 0x'' @
           fmt_08x (ucast (load64 (snd (V h addr len csump)) csump)) @ '']'') \<and>
   length (fmt_08x (ucast (load64 h csump))) = 8 \<and>
   length (fmt_08x (ucast (load64 (snd (V h addr len csump)) csump))) = 8"
proof -
  obtain valid h' where v: "V h addr len csump = (valid, h')" by (cases "V h addr len csump")
  let ?s = "fmt_08x (ucast (load64 h csump))" and ?e = "fmt_08x (ucast (load64 h' csump))"
  have ok: "snprintf_buff (''0x'' @ ?s @ '' [OK]'') = ''0x'' @ ?s @ '' [OK]''"
    by (rule snprintf_buff_id) (simp_all add: length_fmt_08x NUL_notin_fmt_08x [unfolded NUL_def] STR_MAX_def NUL_def)
  have bad: "snprintf_buff (''0x'' @ ?s @ '' [wrong! should be: 0x'' @ ?e @ '']'') =
             ''0x'' @ ?s @ '' [wrong! should be: 0x'' @ ?e @ '']''"
    by (rule snprintf_buff_id) (simp_all add: length_fmt_08x NUL_notin_fmt_08x [unfolded NUL_def] STR_MAX_def NUL_def)
  show ?thesis
    by (simp add: out_get_checksum_def v Let_def ok bad load64_store64 store64_frame length_fmt_08x
        del: append.simps)
qed

theorem checksum_restored_witness:
  "load64 (snd (out_get_checksum (validator_rejects 0x12345678)
             (store64 (\<lambda>_. 0) 16 0xabcdef01) 0 64 16)) 16 = 0xabcdef01 \<and>
   fst (out_get_checksum (validator_rejects 0x12345678)
             (store64 (\<lambda>_. 0) 16 0xabcdef01) 0 64 16) =
     ''0xabcdef01 [wrong! should be: 0x12345678]'' \<and>
   fst (out_get_checksum validator_accepts (store64 (\<lambda>_. 0) 16 0xabcdef01) 0 64 16) =
     ''0xabcdef01 [OK]'' \<and>
   snd (out_get_checksum (validator_rejects 0x12345678)
             (store64 (\<lambda>_. 0) 16 0xabcdef01) 0 64 16) 24 = 0"
proof -
  let ?h = "store64 (\<lambda>_. 0) 16 0xabcdef01"
  have s: "fmt_08x 0xabcdef01 = ''abcdef01''" and e: "fmt_08x 0x12345678 = ''12345678''"
    by (simp_all add: fmt_08x_def hex_digits.simps hex_digit_def pad_left_def)
  have z: "store64 (store64 (\<lambda>_. 0) 16 0xabcdef01) 16 0x12345678 24 = 0"
    by (simp add: store64_def)
  have f: "(24::nat) < 16 \<or> 16 + 8 \<le> (24::nat)" by simp
  note r = checksum_restored [of "validator_rejects 0x12345678" ?h 0 64 16]
  note a = checksum_restored [of validator_accepts ?h 0 64 16]
  from r have r1: "load64 (snd (out_get_checksum (validator_rejects 0x12345678) ?h 0 64 16)) 16 = load64 ?h 16"
    by (rule conjunct1)
  from r have r2: "snd (out_get_checksum (validator_rejects 0x12345678) ?h 0 64 16) 24 =
      snd (validator_rejects 0x12345678 ?h 0 64 16) 24"
    using f by blast
  from r have r3: "fst (out_get_checksum (validator_rejects 0x12345678) ?h 0 64 16) =
     (if fst (validator_rejects 0x12345678 ?h 0 64 16) \<noteq> 0
      then ''0x'' @ fmt_08x (ucast (load64 ?h 16)) @ '' [OK]''
      else ''0x'' @ fmt_08x (ucast (load64 ?h 16)) @ '' [wrong! should be: 0x'' @
           fmt_08x (ucast (load64 (snd (validator_rejects 0x12345678 ?h 0 64 16)) 16)) @ '']'')"
    by blast
  from a have a3: "fst (out_get_checksum validator_accepts ?h 0 64 16) =
     (if fst (validator_accepts ?h 0 64 16) \<noteq> 0
      then ''0x'' @ fmt_08x (ucast (load64 ?h 16)) @ '' [OK]''
      else ''0x'' @ fmt_08x (ucast (load64 ?h 16)) @ '' [wrong! should be: 0x'' @
           fmt_08x (ucast (load64 (snd (validator_accepts ?h 0 64 16)) 16)) @ '']'')"
    by blast
  show ?thesis
    unfolding r1 r2 r3 a3
    by (simp add: validator_rejects_def validator_accepts_def load64_store64 s e z)
qed

theorem checksum_truncated_counterexample:
  "load64 (store64 (\<lambda>_. 0) 16 0x1122334455667788) 16 = 0x1122334455667788 \<and>
   fst (out_get_checksum validator_accepts (store64 (\<lambda>_. 0) 16 0x1122334455667788) 0 64 16) =
     ''0x55667788 [OK]'' \<and>
   spec_checksum_str True 0x1122334455667788 0x1122334455667788 = ''0x1122334455667788 [OK]''"
proof -
  let ?h = "store64 (\<lambda>_. 0) 16 0x1122334455667788"
  have s: "fmt_08x (ucast (0x1122334455667788 :: u64)) = ''55667788''"
    by (simp add: fmt_08x_def hex_digits.simps hex_digit_def pad_left_def)
  have l: "fmt_08lx 0x1122334455667788 = ''1122334455667788''"
    by (simp add: fmt_08lx_def hex_digits.simps hex_digit_def pad_left_def)
  have ok: "snprintf_buff ''0x55667788 [OK]'' = ''0x55667788 [OK]''"
    by (rule snprintf_buff_id) (simp_all add: STR_MAX_def NUL_def)
  have "fst (out_get_checksum validator_accepts ?h 0 64 16) = ''0x55667788 [OK]''"
    unfolding out_get_checksum_def validator_accepts_def load64_store64 s Let_def
    using ok by simp
  then show ?thesis by (simp add: load64_store64 spec_checksum_str_def l)
qed

text \<open>
  Claim C6, amended. For every size below \<open>2^50\<close> (\<open>1024^5\<close>) the human and both
  modes give what the specification's rule gives: divide by 1024 while the value
  is at least 1024, take the unit from K, M, G, T, print \<open><x.x><unit>\<close>, with
  \<open> [<n>]\<close> appended in both mode, and plain decimal below 1024. So 1023 gives
  \<open>1023\<close>, 1024 gives \<open>1.0K\<close>, 1536 gives \<open>1.5K\<close> and \<open>1.5K [1536]\<close>, and
  \<open>1024^i\<close> for \<open>i\<close> from 0 to 4 ends in nothing, K, M, G, T. From \<open>2^60\<close> up to
  \<open>2^63\<close> the function falls back to the plain decimal of the size.
\<close>

theorem size_human_units:
  "(unat sz < 2 ^ 50 \<and> human \<noteq> 0 \<longrightarrow> out_get_size_str sz human = spec_size_str sz human) \<and>
   (2 ^ 60 \<le> unat sz \<and> unat sz < 2 ^ 63 \<and> human \<noteq> 0 \<longrightarrow>
      out_get_size_str sz human = dec_digits (unat sz)) \<and>
   out_get_size_str 1023 1 = ''1023'' \<and>
   out_get_size_str 1024 1 = ''1.0K'' \<and>
   out_get_size_str 1536 1 = ''1.5K'' \<and>
   out_get_size_str 1536 2 = ''1.5K [1536]'' \<and>
   out_get_size_str (1024 ^ 0) 1 = ''1'' \<and>
   out_get_size_str (1024 ^ 1) 1 = ''1.0K'' \<and>
   out_get_size_str (1024 ^ 2) 1 = ''1.0M'' \<and>
   out_get_size_str (1024 ^ 3) 1 = ''1.0G'' \<and>
   out_get_size_str (1024 ^ 4) 1 = ''1.0T''"
proof -
  have a: "unat sz < 2 ^ 50 \<and> human \<noteq> 0 \<longrightarrow> out_get_size_str sz human = spec_size_str sz human"
    using size_small_agrees by blast
  have b: "2 ^ 60 \<le> unat sz \<and> unat sz < 2 ^ 63 \<and> human \<noteq> 0 \<longrightarrow>
      out_get_size_str sz human = dec_digits (unat sz)"
    using size_huge_decimal by blast
  have p: "out_get_size_str (1024 ^ 0) 1 = ''1''" "out_get_size_str (1024 ^ 1) 1 = ''1.0K''"
    "out_get_size_str (1024 ^ 2) 1 = ''1.0M''" "out_get_size_str (1024 ^ 3) 1 = ''1.0G''"
    "out_get_size_str (1024 ^ 4) 1 = ''1.0T''"
    using size_powers by simp_all
  from a b p size_examples show ?thesis by blast
qed

theorem size_human_units_witness:
  "out_get_size_str 2048 2 = spec_size_str 2048 2 \<and>
   spec_size_str 2048 2 = ''2.0K [2048]'' \<and>
   out_get_size_str 0x1000000000000000 2 = ''1152921504606846976''"
proof -
  have a: "unat (2048 :: u64) < 2 ^ 50 \<and> (2::int) \<noteq> 0" by simp
  have b: "2 ^ 60 \<le> unat (0x1000000000000000 :: u64) \<and> unat (0x1000000000000000 :: u64) < 2 ^ 63 \<and>
      (2::int) \<noteq> 0" by simp
  note t1 = size_human_units [of 2048 2, THEN conjunct1, rule_format, OF a]
  note t2 = size_human_units [of "0x1000000000000000" 2, THEN conjunct2, THEN conjunct1, rule_format, OF b]
  have s: "spec_size_str 2048 2 = ''2.0K [2048]''"
    by (simp add: spec_size_str_def spec_size_loop.simps spec_units_def size_eval)
  have d: "dec_digits (unat (0x1000000000000000 :: u64)) = ''1152921504606846976''"
    by (simp add: dec_digits.simps dec_digit_def)
  from t1 t2 s d show ?thesis by simp
qed

theorem size_human_units_counterexample:
  "out_get_size_str 0x1000000000000000 1 = ''1152921504606846976'' \<and>
   spec_size_str 0x1000000000000000 1 = ''1048576.0T''"
  using size_huge spec_huge by simp

text \<open>
  Claim C7. In bytes mode the size is printed with \<open>%ld\<close>: the sizes from \<open>2^63\<close>
  on come out negative, where \<open>%lu\<close>, which the same function uses for the size in
  brackets, prints the unsigned value.
\<close>

theorem size_bytes_signed:
  "out_get_size_str 0x8000000000000000 0 = ''-9223372036854775808'' \<and>
   fmt_lu 0x8000000000000000 = ''9223372036854775808'' \<and>
   out_get_size_str 0x7fffffffffffffff 0 = ''9223372036854775807''"
  by (simp add: size_eval)

text \<open>
  Claim C8. \<open>outv_check\<close> holds exactly when the configured verbosity is at least
  \<open>vlevel\<close>. With the gate closed \<open>outv\<close> returns the state as it was: nothing is
  written and nothing else changes. With the gate open and a stream set it
  writes to that stream, and to no other, the prefix followed by \<open>": "\<close> when one
  is set, and then the message.
\<close>

theorem outv_gated:
  "(outv_check st vlevel \<noteq> 0 \<longleftrightarrow> vlevel \<le> out_vlevel st) \<and>
   (outv_check st vlevel = 0 \<longrightarrow> outv st vlevel msg = Inr st) \<and>
   (outv_check st vlevel \<noteq> 0 \<and> out_fh st = Some f \<longrightarrow>
      outv st vlevel msg =
        Inr (st\<lparr>written := (written st)(f := written st f @
               (case out_prefix st of None \<Rightarrow> [] | Some p \<Rightarrow> [p @ '': '']) @ [msg])\<rparr>) \<and>
      outv st vlevel msg \<noteq> Inr st)"
proof (intro conjI impI)
  show "(outv_check st vlevel \<noteq> 0) = (vlevel \<le> out_vlevel st)"
    by (simp add: outv_check_def)
  show "outv st vlevel msg = Inr st" if "outv_check st vlevel = 0"
    using that by (simp add: outv_def)
next
  assume a: "outv_check st vlevel \<noteq> 0 \<and> out_fh st = Some f"
  then show e: "outv st vlevel msg =
        Inr (st\<lparr>written := (written st)(f := written st f @
               (case out_prefix st of None \<Rightarrow> [] | Some p \<Rightarrow> [p @ '': '']) @ [msg])\<rparr>)"
    by (cases "out_prefix st") (simp_all add: outv_def out_prefix_print_def fprintf_def)
  have "written (st\<lparr>written := (written st)(f := written st f @
               (case out_prefix st of None \<Rightarrow> [] | Some p \<Rightarrow> [p @ '': '']) @ [msg])\<rparr>) f \<noteq> written st f"
    by simp
  then have "st\<lparr>written := (written st)(f := written st f @
               (case out_prefix st of None \<Rightarrow> [] | Some p \<Rightarrow> [p @ '': '']) @ [msg])\<rparr> \<noteq> st"
    by metis
  then show "outv st vlevel msg \<noteq> Inr st" unfolding e by simp
qed

theorem outv_gated_witness:
  "outv (out_set_prefix (Some ''pmempool'') st_example) 1 ''hello'' =
     Inr (out_set_prefix (Some ''pmempool'') st_example) \<and>
   outv (out_set_prefix (Some ''pmempool'') st_example) 0 ''hello'' =
     Inr (out_set_prefix (Some ''pmempool'') st_example
            \<lparr>written := (\<lambda>_. [])(Stdout := [''pmempool: '', ''hello''])\<rparr>) \<and>
   outv st_example 0 ''hello'' = Inr (st_example\<lparr>written := (\<lambda>_. [])(Stdout := [''hello''])\<rparr>)"
proof -
  let ?st = "out_set_prefix (Some ''pmempool'') st_example"
  have c: "outv_check ?st 1 = 0"
    by (simp add: outv_check_def st_example_def out_set_prefix_def)
  have o: "outv_check ?st 0 \<noteq> 0 \<and> out_fh ?st = Some Stdout"
    by (simp add: outv_check_def st_example_def out_set_prefix_def)
  have o': "outv_check st_example 0 \<noteq> 0 \<and> out_fh st_example = Some Stdout"
    using st_example_gate by simp
  note t1 = outv_gated [of ?st 1 "''hello''", THEN conjunct2, THEN conjunct1, rule_format, OF c]
  note t2 = outv_gated [of ?st 0 "''hello''" Stdout, THEN conjunct2, THEN conjunct2, rule_format, OF o, THEN conjunct1]
  note t3 = outv_gated [of st_example 0 "''hello''" Stdout, THEN conjunct2, THEN conjunct2, rule_format, OF o', THEN conjunct1]
  from t1 t2 t3 show ?thesis
    by (simp add: st_example_def out_set_prefix_def)
qed



text \<open>
  Claim C10. In the lines that one call writes, the first is the formatted first
  row, never the \<open>*\<close> marker; every \<open>*\<close> line comes right after a formatted row
  of the dump, so no two \<open>*\<close> lines are adjacent; and the separator holds no
  \<open>*\<close> line.
\<close>

theorem hexdump_star_after_row:
  assumes "outv_check st vlevel \<noteq> 0" and "out_fh st = Some f"
    and "0 < len" and "len \<le> length addr"
  shows "outv_hexdump st vlevel addr len offset sep =
           Inr (st\<lparr>written := (written st)(f := written st f @ hexdump_lines addr len offset @
                  (if sep \<noteq> 0 then separator (length (last (hexdump_lines addr len offset))) else []))\<rparr>) \<and>
         hexdump_lines addr len offset \<noteq> [] \<and>
         hd (hexdump_lines addr len offset) = row_at addr len offset 0 \<and>
         hd (hexdump_lines addr len offset) \<noteq> star_line \<and>
         (\<forall>i<length (hexdump_lines addr len offset).
            hexdump_lines addr len offset ! i = star_line \<longrightarrow>
            0 < i \<and> hexdump_lines addr len offset ! (i - 1) \<in> set (dump_rows addr len offset) \<and>
            hexdump_lines addr len offset ! (i - 1) \<noteq> star_line) \<and>
         (\<forall>i. Suc i < length (hexdump_lines addr len offset) \<longrightarrow>
            \<not> (hexdump_lines addr len offset ! i = star_line \<and>
               hexdump_lines addr len offset ! Suc i = star_line)) \<and>
         star_line \<notin> set (separator (length (last (hexdump_lines addr len offset))))"
proof -
  let ?ls = "hexdump_lines addr len offset" and ?R = "set (dump_rows addr len offset)"
  note fl = hexdump_lines_first_last(1-3) [OF assms(3,4), of offset]
  have s: "stars_follow_rows ?R ?ls" by (rule hexdump_lines_good(2) [OF assms(4)])
  have h: "hd ?ls \<noteq> star_line" using fl(2) by (simp add: row_at_def row_line_not_star)
  have a: "\<forall>i<length ?ls. ?ls ! i = star_line \<longrightarrow> 0 < i \<and> ?ls ! (i - 1) \<in> ?R \<and> ?ls ! (i - 1) \<noteq> star_line"
    using s star_notin_dump_rows [of addr len offset] by (auto simp: stars_follow_rows_def)
  have b: "\<forall>i. Suc i < length ?ls \<longrightarrow> \<not> (?ls ! i = star_line \<and> ?ls ! Suc i = star_line)"
    using no_adjacent_stars [OF s star_notin_dump_rows] by blast
  show ?thesis
    using outv_hexdump_eq [OF assms] fl(1,2) h a b star_notin_separator by blast
qed

theorem hexdump_star_after_row_witness:
  "hexdump_lines (replicate 48 0xff) 48 0 \<noteq> [] \<and>
   hd (hexdump_lines (replicate 48 0xff) 48 0) = row_at (replicate 48 0xff) 48 0 0 \<and>
   hexdump_lines (replicate 48 0xff) 48 0 ! 1 = star_line \<and>
   hexdump_lines (replicate 48 0xff) 48 0 ! (1 - 1) \<in> set (dump_rows (replicate 48 0xff) 48 0) \<and>
   hexdump_lines (replicate 48 0xff) 48 0 ! (1 - 1) \<noteq> star_line \<and>
   hexdump_lines (replicate 48 0xff) 48 0 ! 2 \<noteq> star_line"
proof -
  have l: "(0::nat) < 48" "48 \<le> length (replicate 48 (0xff::u8))" by simp_all
  have k: "(3::nat) \<le> 3" by simp
  have e: "hexdump_lines (replicate 48 (0xff::u8)) 48 0 =
       [row_line 0 (replicate 16 0xff), star_line, row_line 32 (replicate 16 0xff)]"
    using hexdump_lines_repeated [OF k, of "0xff" 0] by simp
  have i: "1 < length (hexdump_lines (replicate 48 (0xff::u8)) 48 0)" "Suc 1 < length (hexdump_lines (replicate 48 (0xff::u8)) 48 0)"
    and s: "hexdump_lines (replicate 48 (0xff::u8)) 48 0 ! 1 = star_line"
    by (simp_all add: e)
  from hexdump_star_after_row [OF st_example_gate l, of 0 0]
  have "hexdump_lines (replicate 48 0xff) 48 0 \<noteq> [] \<and>
     hd (hexdump_lines (replicate 48 0xff) 48 0) = row_at (replicate 48 0xff) 48 0 0 \<and>
     (\<forall>i<length (hexdump_lines (replicate 48 0xff) 48 0).
            hexdump_lines (replicate 48 0xff) 48 0 ! i = star_line \<longrightarrow>
            0 < i \<and> hexdump_lines (replicate 48 0xff) 48 0 ! (i - 1) \<in> set (dump_rows (replicate 48 0xff) 48 0) \<and>
            hexdump_lines (replicate 48 0xff) 48 0 ! (i - 1) \<noteq> star_line) \<and>
     (\<forall>i. Suc i < length (hexdump_lines (replicate 48 0xff) 48 0) \<longrightarrow>
            \<not> (hexdump_lines (replicate 48 0xff) 48 0 ! i = star_line \<and>
               hexdump_lines (replicate 48 0xff) 48 0 ! Suc i = star_line))"
    by blast
  then show ?thesis using i s by (metis One_nat_def Suc_1)
qed

end
